theory Spec2Isabelle
  imports Main "HOL-Library.Word"
begin

unbundle bit_operations_syntax

section \<open>Bytes, Python strings and the library functions the tools call\<close>

text \<open>
  A Python \<open>bytes\<close> object is a sequence of integers in \<open>range(256)\<close>: a list of 8-bit
  words. A Python \<open>str\<close> obtained by decoding is a sequence of code points: a list of
  naturals. String literals of the source (\<open>'0x..'\<close>, the skip reasons) are kept as
  HOL strings.
\<close>

type_synonym byte = "8 word"
type_synonym pystr = "nat list"

abbreviation (input) NL :: byte where "NL \<equiv> 0x0A"
abbreviation (input) ord_bar :: byte where "ord_bar \<equiv> 0x7C"
abbreviation (input) ord_hash :: byte where "ord_hash \<equiv> 0x23"
abbreviation (input) ord_backslash :: byte where "ord_backslash \<equiv> 0x5C"
abbreviation (input) ord_dquote :: byte where "ord_dquote \<equiv> 0x22"
abbreviation (input) ord_semicolon :: byte where "ord_semicolon \<equiv> 0x3B"

text \<open>\<open>chr(b)\<close> for a byte: the code point with the same number (ISO-8859-1).\<close>

definition chr_iso :: "byte \<Rightarrow> nat" where
  "chr_iso b = unat b"

text \<open>\<open>data.decode('iso-8859-1')\<close>: never fails, one code point per byte.\<close>

definition decode_iso :: "byte list \<Rightarrow> pystr" where
  "decode_iso bs = map chr_iso bs"

text \<open>
  \<open>s.encode('iso-8859-1')\<close> on a one-character string: the byte with the number of the
  code point, an error above U+00FF.
\<close>

definition encode_iso :: "nat \<Rightarrow> byte option" where
  "encode_iso cp = (if cp < 256 then Some (of_nat cp) else None)"

text \<open>
  \<open>c.encode('utf-8')\<close> for one code point, as CPython's encoder writes it: one to four
  bytes. (The encoder refuses surrogates; \<open>chr\<close> of a byte is below U+0100, where it
  produces one or two bytes.)
\<close>

definition encode_utf8 :: "nat \<Rightarrow> byte list" where
  "encode_utf8 cp =
     (if cp < 0x80 then [of_nat cp]
      else if cp < 0x800 then [of_nat (0xC0 + cp div 64), of_nat (0x80 + cp mod 64)]
      else if cp < 0x10000 then
        [of_nat (0xE0 + cp div 4096), of_nat (0x80 + cp div 64 mod 64),
         of_nat (0x80 + cp mod 64)]
      else
        [of_nat (0xF0 + cp div 262144), of_nat (0x80 + cp div 4096 mod 64),
         of_nat (0x80 + cp div 64 mod 64), of_nat (0x80 + cp mod 64)])"

text \<open>
  \<open>data.decode('utf-8')\<close> in strict mode: \<open>None\<close> stands for UnicodeDecodeError. The
  decoder accepts exactly the well-formed sequences: no overlong form (lead bytes C0, C1,
  E0 followed by 80..9F, F0 followed by 80..8F), no surrogate (ED followed by A0..BF),
  nothing above U+10FFFF (F4 followed by 90..BF, lead bytes F5..FF), no stray or missing
  continuation byte.
\<close>

definition in_range :: "byte \<Rightarrow> byte \<Rightarrow> byte \<Rightarrow> bool" where
  "in_range lo hi b \<longleftrightarrow> lo \<le> b \<and> b \<le> hi"

definition second_lo :: "byte \<Rightarrow> byte" where
  "second_lo b0 = (if b0 = 0xE0 then 0xA0 else if b0 = 0xF0 then 0x90 else 0x80)"

definition second_hi :: "byte \<Rightarrow> byte" where
  "second_hi b0 = (if b0 = 0xED then 0x9F else if b0 = 0xF4 then 0x8F else 0xBF)"

definition cont_bits :: "byte \<Rightarrow> nat" where
  "cont_bits b = unat b - 0x80"

fun decode_utf8 :: "byte list \<Rightarrow> pystr option" where
  "decode_utf8 [] = Some []"
| "decode_utf8 (b0 # bs) =
     (if b0 < 0x80 then map_option ((#) (unat b0)) (decode_utf8 bs)
      else if b0 < 0xC2 then None
      else if b0 < 0xE0 then
        (case bs of
           b1 # r \<Rightarrow>
             if in_range 0x80 0xBF b1
             then map_option ((#) ((unat b0 - 0xC0) * 64 + cont_bits b1)) (decode_utf8 r)
             else None
         | _ \<Rightarrow> None)
      else if b0 < 0xF0 then
        (case bs of
           b1 # b2 # r \<Rightarrow>
             if in_range (second_lo b0) (second_hi b0) b1 \<and> in_range 0x80 0xBF b2
             then map_option
                    ((#) ((unat b0 - 0xE0) * 4096 + cont_bits b1 * 64 + cont_bits b2))
                    (decode_utf8 r)
             else None
         | _ \<Rightarrow> None)
      else if b0 < 0xF5 then
        (case bs of
           b1 # b2 # b3 # r \<Rightarrow>
             if in_range (second_lo b0) (second_hi b0) b1 \<and> in_range 0x80 0xBF b2
                \<and> in_range 0x80 0xBF b3
             then map_option
                    ((#) ((unat b0 - 0xF0) * 262144 + cont_bits b1 * 4096
                          + cont_bits b2 * 64 + cont_bits b3))
                    (decode_utf8 r)
             else None
         | _ \<Rightarrow> None)
      else None)"

text \<open>\<open>is_valid_utf8\<close> (fix-comment-encoding.py): the try/except around the decoder.\<close>

definition is_valid_utf8 :: "byte list \<Rightarrow> bool" where
  "is_valid_utf8 data = (case decode_utf8 data of Some _ \<Rightarrow> True | None \<Rightarrow> False)"

text \<open>
  \<open>data.split(b'\n')\<close>: always at least one line, the pieces between the separators;
  \<open>b'\n'.join(lines)\<close> puts the separators back.
\<close>

fun split_nl :: "byte list \<Rightarrow> byte list list" where
  "split_nl [] = [[]]"
| "split_nl (b # bs) =
     (if b = NL then [] # split_nl bs
      else (case split_nl bs of l # ls \<Rightarrow> (b # l) # ls | [] \<Rightarrow> [[b]]))"

fun join_nl :: "byte list list \<Rightarrow> byte list" where
  "join_nl [] = []"
| "join_nl [l] = l"
| "join_nl (l # ls) = l @ NL # join_nl ls"

text \<open>
  \<open>str.strip()\<close> removes leading and trailing whitespace, where whitespace is what
  \<open>str.isspace\<close> accepts: besides the ASCII blanks this covers the separators FS, GS,
  RS, US, and, in the ISO-8859-1 range, NEL (0x85) and the no-break space (0xA0).
\<close>

definition py_isspace :: "nat \<Rightarrow> bool" where
  "py_isspace cp \<longleftrightarrow>
     (9 \<le> cp \<and> cp \<le> 13) \<or> (28 \<le> cp \<and> cp \<le> 32) \<or> cp = 0x85 \<or> cp = 0xA0
     \<or> cp = 0x1680 \<or> (0x2000 \<le> cp \<and> cp \<le> 0x200A) \<or> cp = 0x2028 \<or> cp = 0x2029
     \<or> cp = 0x202F \<or> cp = 0x205F \<or> cp = 0x3000"

definition strip :: "pystr \<Rightarrow> pystr" where
  "strip s = rev (dropWhile py_isspace (rev (dropWhile py_isspace s)))"

text \<open>The format \<open>f'0x{b:02x}'\<close>: two lower-case hexadecimal digits.\<close>

definition hex_digit :: "nat \<Rightarrow> char" where
  "hex_digit n = ''0123456789abcdef'' ! (n mod 16)"

definition hex_byte :: "byte \<Rightarrow> string" where
  "hex_byte b = ''0x'' @ [hex_digit (unat b div 16), hex_digit (unat b mod 16)]"

section \<open>The Converter: fix-comment-encoding.py\<close>

record change =
  c_line :: nat
  c_col :: nat
  c_byte :: string
  c_char :: nat

record warning =
  w_line :: nat
  w_col :: nat
  w_byte :: string
  w_char :: nat
  w_context :: pystr
  w_reason :: string

text \<open>
  The local variables of \<open>process_file\<close> once it has decided to convert. The first
  four live across lines; the last five are assigned afresh at the top of the loop over
  lines.
\<close>

record pstate =
  changes :: "change list"
  warnings :: "warning list"
  new_lines :: "byte list list"
  in_block_comment :: bool
  new_line :: "byte list"
  in_line_comment :: bool
  in_string :: bool
  escape_next :: bool
  prev_byte :: byte

text \<open>The \<open>if\<close>/\<open>elif\<close> chain for an ASCII byte (lines 84 to 99), in the source's order.\<close>

definition ascii_flags :: "byte \<Rightarrow> pstate \<Rightarrow> pstate" where
  "ascii_flags b s =
     (if escape_next s then s\<lparr>escape_next := False\<rparr>
      else if in_block_comment s then
        (if prev_byte s = ord_bar \<and> b = ord_hash then s\<lparr>in_block_comment := False\<rparr> else s)
      else if in_line_comment s then s
      else if b = ord_backslash \<and> in_string s then s\<lparr>escape_next := True\<rparr>
      else if b = ord_dquote \<and> \<not> in_line_comment s then s\<lparr>in_string := \<not> in_string s\<rparr>
      else if b = ord_semicolon \<and> \<not> in_string s then s\<lparr>in_line_comment := True\<rparr>
      else if prev_byte s = ord_hash \<and> b = ord_bar \<and> \<not> in_string s
        then s\<lparr>in_block_comment := True\<rparr>
      else s)"

text \<open>The context string of a warning: the stripped line, cut after 80 characters.\<close>

definition warn_context :: "byte list \<Rightarrow> pystr" where
  "warn_context line =
     (let context_str = strip (decode_iso line)
      in if length context_str > 80 then take 80 context_str @ [46, 46, 46]
         else context_str)"

text \<open>The body of the loop over the bytes of a line (lines 83 to 129).\<close>

definition byte_step :: "nat \<Rightarrow> byte list \<Rightarrow> nat \<Rightarrow> byte \<Rightarrow> pstate \<Rightarrow> pstate" where
  "byte_step line_no line col b s =
     (if b \<le> 127 then
        (let s1 = ascii_flags b s
         in s1\<lparr>new_line := new_line s1 @ [b], prev_byte := b\<rparr>)
      else
        (let iso_char = chr_iso b;
             s1 =
               (if in_line_comment s \<or> in_block_comment s then
                  s\<lparr>new_line := new_line s @ encode_utf8 iso_char,
                    changes := changes s @
                      [\<lparr>c_line = line_no, c_col = col + 1, c_byte = hex_byte b,
                        c_char = iso_char\<rparr>]\<rparr>
                else
                  s\<lparr>new_line := new_line s @ [b],
                    warnings := warnings s @
                      [\<lparr>w_line = line_no, w_col = col + 1, w_byte = hex_byte b,
                        w_char = iso_char, w_context = warn_context line,
                        w_reason = ''non-ASCII in code (not in comment)''\<rparr>]\<rparr>)
         in s1\<lparr>prev_byte := b\<rparr>))"

text \<open>\<open>for col, b in enumerate(line)\<close>: the bytes still to come, the column of the next.\<close>

fun scan_bytes :: "nat \<Rightarrow> byte list \<Rightarrow> nat \<Rightarrow> byte list \<Rightarrow> pstate \<Rightarrow> pstate" where
  "scan_bytes line_no line col [] s = s"
| "scan_bytes line_no line col (b # bs) s =
     scan_bytes line_no line (Suc col) bs (byte_step line_no line col b s)"

text \<open>The assignments at the top of the loop over lines (lines 76 to 80).\<close>

definition line_reset :: "pstate \<Rightarrow> pstate" where
  "line_reset s =
     s\<lparr>new_line := [], in_line_comment := False, in_string := False,
       escape_next := False, prev_byte := 0\<rparr>"

text \<open>The body of the loop over lines (lines 76 to 131).\<close>

definition line_step :: "nat \<Rightarrow> byte list \<Rightarrow> pstate \<Rightarrow> pstate" where
  "line_step line_no line s =
     (let s1 = scan_bytes line_no line 0 line (line_reset s)
      in s1\<lparr>new_lines := new_lines s1 @ [new_line s1]\<rparr>)"

text \<open>\<open>for line_no, line in enumerate(lines, 1)\<close>.\<close>

fun scan_lines :: "nat \<Rightarrow> byte list list \<Rightarrow> pstate \<Rightarrow> pstate" where
  "scan_lines line_no [] s = s"
| "scan_lines line_no (line # rest) s = scan_lines (Suc line_no) rest (line_step line_no line s)"

text \<open>
  The state before the first line (lines 70 to 73). The per-line variables do not exist
  yet in the source; they are given the values the first line assigns to them.
\<close>

definition init_state :: pstate where
  "init_state =
     \<lparr>changes = [], warnings = [], new_lines = [], in_block_comment = False,
      new_line = [], in_line_comment = False, in_string = False, escape_next = False,
      prev_byte = 0\<rparr>"

record result =
  r_changes :: "change list"
  r_warnings :: "warning list"
  r_modified :: bool
  r_skipped :: "string option"

definition has_non_ascii :: "byte list \<Rightarrow> bool" where
  "has_non_ascii data = list_ex (\<lambda>b. b > 127) data"

text \<open>
  \<open>process_file\<close>: the file is its content. The function returns the dictionary of the
  source together with the content of the file after the call, which is rewritten only
  when something changed and \<open>dry_run\<close> is off.
\<close>

definition process_file :: "byte list \<Rightarrow> bool \<Rightarrow> result \<times> byte list" where
  "process_file data dry_run =
     (if \<not> has_non_ascii data then
        (\<lparr>r_changes = [], r_warnings = [], r_modified = False,
          r_skipped = Some ''no non-ASCII bytes''\<rparr>, data)
      else if is_valid_utf8 data then
        (\<lparr>r_changes = [], r_warnings = [], r_modified = False,
          r_skipped = Some ''already valid UTF-8''\<rparr>, data)
      else
        (let lines = split_nl data;
             s = scan_lines 1 lines init_state;
             modified = (length (changes s) > 0)
         in (\<lparr>r_changes = changes s, r_warnings = warnings s, r_modified = modified,
              r_skipped = None\<rparr>,
             if modified \<and> \<not> dry_run then join_nl (new_lines s) else data)))"

section \<open>The Scanner: scan-non-ascii.py\<close>

text \<open>
  \<open>bytes.rfind(c)\<close> and \<open>bytes.find(c, i)\<close>: the highest index of \<open>c\<close>, the lowest index
  of \<open>c\<close> at or after \<open>i\<close>, and \<open>-1\<close> when there is none. \<open>data[a:b]\<close> for
  \<open>0 \<le> a\<close> is the slice.
\<close>

definition rfind :: "byte list \<Rightarrow> byte \<Rightarrow> int" where
  "rfind xs c =
     (if c \<in> set xs then int (length xs) - 1 - int (length (takeWhile (\<lambda>x. x \<noteq> c) (rev xs)))
      else - 1)"

definition find_from :: "byte list \<Rightarrow> byte \<Rightarrow> nat \<Rightarrow> int" where
  "find_from xs c i =
     (if c \<in> set (drop i xs) then int (i + length (takeWhile (\<lambda>x. x \<noteq> c) (drop i xs)))
      else - 1)"

definition slice :: "byte list \<Rightarrow> nat \<Rightarrow> nat \<Rightarrow> byte list" where
  "slice xs a b = take (b - a) (drop a xs)"

record hit =
  h_line :: nat
  h_col :: int
  h_byte :: byte
  h_hex :: string
  h_char :: nat
  h_context :: pystr

text \<open>The body of the \<open>if b > 127\<close> in \<open>scan_file\<close>, for the byte at index \<open>i\<close>.\<close>

definition hit_at :: "byte list \<Rightarrow> nat \<Rightarrow> hit" where
  "hit_at data i =
     (let b = data ! i;
          line = count_list (take i data) NL + 1;
          col = int i - rfind (take i data) NL - 1;
          line_start = nat (rfind (take i data) NL + 1);
          line_end0 = find_from data NL i;
          line_end = (if line_end0 = - 1 then length data else nat line_end0);
          context = decode_iso (slice data line_start line_end);
          char = chr_iso b
      in \<lparr>h_line = line, h_col = col, h_byte = b, h_hex = hex_byte b, h_char = char,
          h_context = strip context\<rparr>)"

text \<open>\<open>scan_file\<close>: one pass over the indices, a hit for each byte above 127.\<close>

definition scan_file :: "byte list \<Rightarrow> hit list" where
  "scan_file data = map (hit_at data) (filter (\<lambda>i. data ! i > 127) [0..<length data])"

section \<open>The Verifier: verify-encoding.py\<close>

record problem =
  p_line :: nat
  p_col :: int
  p_byte :: string
  p_char_iso :: nat
  p_context :: pystr

text \<open>
  \<open>while start > 0 and (data[start] & 0xC0) == 0x80: start -= 1\<close>, called with an
  index inside the data.
\<close>

fun back_up :: "byte list \<Rightarrow> nat \<Rightarrow> nat" where
  "back_up data 0 = 0"
| "back_up data (Suc n) =
     (if (data ! Suc n) AND 0xC0 = 0x80 then back_up data n else Suc n)"

text \<open>\<open>while end < len(data) and (data[end] & 0xC0) == 0x80: end += 1\<close>.\<close>

function find_end :: "byte list \<Rightarrow> nat \<Rightarrow> nat" where
  "find_end data e =
     (if e < length data \<and> (data ! e) AND 0xC0 = 0x80 then find_end data (Suc e) else e)"
  by pat_completeness auto
termination
  by (relation "measure (\<lambda>(data, e). length data - e)") auto

declare find_end.simps [simp del]

text \<open>The body of the loop of \<open>verify_file\<close> for index \<open>i\<close>: the problems it appends.\<close>

definition problem_at :: "byte list \<Rightarrow> nat \<Rightarrow> problem list" where
  "problem_at data i =
     (let b = data ! i
      in if b > 127 then
           (let start = back_up data i;
                end = find_end data (start + 1)
            in if is_valid_utf8 (slice data start end) then []
               else if i = start then
                 (let line = count_list (take i data) NL + 1;
                      col = int i - rfind (take i data) NL - 1;
                      line_start = nat (rfind (take i data) NL + 1);
                      line_end0 = find_from data NL i;
                      line_end = (if line_end0 = - 1 then length data else nat line_end0);
                      context = strip (decode_iso (slice data line_start line_end))
                  in [\<lparr>p_line = line, p_col = col, p_byte = hex_byte b,
                       p_char_iso = chr_iso b, p_context = context\<rparr>])
               else [])
         else [])"

definition verify_file :: "byte list \<Rightarrow> problem list" where
  "verify_file data =
     (if is_valid_utf8 data then []
      else concat (map (problem_at data) [0..<length data]))"

text \<open>
  \<open>main\<close> of the Verifier over the files found, each a path with its content: the number
  of files counted as valid, the files with their problems, and the exit code.
\<close>

fun verify_files ::
  "(string \<times> byte list) list \<Rightarrow> nat \<times> (string \<times> problem list) list" where
  "verify_files [] = (0, [])"
| "verify_files ((path, data) # rest) =
     (let problems = verify_file data;
          (ok_count, problem_files) = verify_files rest
      in if problems \<noteq> [] then (ok_count, (path, problems) # problem_files)
         else (ok_count + 1, problem_files))"

definition verify_exit_code :: "(string \<times> byte list) list \<Rightarrow> nat" where
  "verify_exit_code files = (if snd (verify_files files) = [] then 0 else 1)"

section \<open>Notions used to state the properties\<close>

text \<open>
  The classification of the byte at column \<open>c\<close> of the line with index \<open>k\<close> is read off
  the variables of \<open>process_file\<close> at the moment the loops reach that byte: the state
  after the lines before it, the assignments at the top of the loop over lines, and the
  bytes of the line before it.
\<close>

definition state_before :: "byte list list \<Rightarrow> nat \<Rightarrow> nat \<Rightarrow> pstate" where
  "state_before lines k c =
     scan_bytes (Suc k) (lines ! k) 0 (take c (lines ! k))
       (line_reset (scan_lines 1 (take k lines) init_state))"

definition in_comment :: "pstate \<Rightarrow> bool" where
  "in_comment s \<longleftrightarrow> in_line_comment s \<or> in_block_comment s"

text \<open>What the Converter writes for a byte met in state \<open>s\<close>.\<close>

definition written_for :: "pstate \<Rightarrow> byte \<Rightarrow> byte list" where
  "written_for s b = (if b > 127 \<and> in_comment s then encode_utf8 (chr_iso b) else [b])"

definition converted_line :: "byte list list \<Rightarrow> nat \<Rightarrow> byte list" where
  "converted_line lines k =
     concat (map (\<lambda>c. written_for (state_before lines k c) (lines ! k ! c))
                 [0..<length (lines ! k)])"

text \<open>
  The number of bytes before column \<open>c\<close> of line \<open>k\<close> that are converted: each of them
  takes two bytes in the output, so this is how far the byte of column \<open>c\<close> is shifted.
\<close>

definition converted_before :: "byte list list \<Rightarrow> nat \<Rightarrow> nat \<Rightarrow> nat" where
  "converted_before lines k c =
     length (filter (\<lambda>j. lines ! k ! j > 127 \<and> in_comment (state_before lines k j)) [0..<c])"

text \<open>The classification state: block comment, line comment, string, pending escape.\<close>

definition cls_of :: "pstate \<Rightarrow> bool \<times> bool \<times> bool \<times> bool" where
  "cls_of s = (in_block_comment s, in_line_comment s, in_string s, escape_next s)"

text \<open>
  Two states classify alike: the four flags agree, and the previous bytes are equal or
  both above 127 (a byte above 127 is never half of a marker).
\<close>

definition same_class :: "pstate \<Rightarrow> pstate \<Rightarrow> bool" where
  "same_class s t \<longleftrightarrow>
     cls_of s = cls_of t
     \<and> (prev_byte s = prev_byte t \<or> (prev_byte s > 127 \<and> prev_byte t > 127))"

text \<open>
  Walking a file with a line counter and a column counter: every byte other than the
  newline gets the current line and column, a newline starts the next line at column 0.
  With the counters started at line 1 and column 0 this is the 1-based line number and
  the 0-based column of each byte.
\<close>

fun positions :: "nat \<Rightarrow> nat \<Rightarrow> byte list \<Rightarrow> (nat \<times> int \<times> byte) list" where
  "positions l c [] = []"
| "positions l c (b # bs) =
     (if b = NL then positions (Suc l) 0 bs else (l, int c, b) # positions l (Suc c) bs)"

text \<open>A line contains the two bytes \<open>|#\<close> next to each other.\<close>

fun has_close :: "byte list \<Rightarrow> bool" where
  "has_close (x # y # r) \<longleftrightarrow> (x = ord_bar \<and> y = ord_hash) \<or> has_close (y # r)"
| "has_close _ \<longleftrightarrow> False"

section \<open>Facts about the library functions\<close>

subsection \<open>UTF-8 of the upper half of ISO-8859-1\<close>

lemma hi_unat: "(b::byte) > 127 \<Longrightarrow> 128 \<le> unat b \<and> unat b < 256"
  using unsigned_less[of b, where 'a=nat] by (simp add: word_less_nat_alt)

lemma enc_hi: "(b::byte) > 127 \<Longrightarrow> encode_utf8 (chr_iso b) = [of_nat (192 + unat b div 64), of_nat (128 + unat b mod 64)]"
  using hi_unat[of b] by (simp add: encode_utf8_def chr_iso_def)

lemma unat_small: "n < 256 \<Longrightarrow> unat (of_nat n :: byte) = n"
  by (simp only: unat_of_nat) simp

lemma div64: "128 \<le> (n::nat) \<Longrightarrow> n < 256 \<Longrightarrow> 2 \<le> n div 64 \<and> n div 64 < 4"
proof -
  assume a: "128 \<le> n" "n < 256"
  have "n div 64 < 4" using a by (simp add: less_mult_imp_div_less)
  moreover have "2 \<le> n div 64" using div_le_mono[OF a(1), of 64] by simp
  ultimately show ?thesis by simp
qed

lemma decode2: "\<not> b0 < 0x80 \<Longrightarrow> \<not> b0 < 0xC2 \<Longrightarrow> b0 < 0xE0 \<Longrightarrow> in_range 0x80 0xBF b1 \<Longrightarrow>
  decode_utf8 (b0 # b1 # r) = map_option ((#) ((unat b0 - 0xC0) * 64 + cont_bits b1)) (decode_utf8 r)"
  by simp

lemma dec_enc: 
  assumes "(b::byte) > 127"
  shows "decode_utf8 (encode_utf8 (chr_iso b)) = Some [chr_iso b]"
proof -
  let ?n = "unat b"
  from assms have n: "128 \<le> ?n" "?n < 256" using hi_unat by auto
  let ?b0 = "of_nat (192 + ?n div 64) :: byte"
  let ?b1 = "of_nat (128 + ?n mod 64) :: byte"
  have d: "2 \<le> ?n div 64 \<and> ?n div 64 < 4" using n by (rule div64)
  have "192 + ?n div 64 < 256" using d by linarith
  then have u0: "unat ?b0 = 192 + ?n div 64" by (rule unat_small)
  have "128 + ?n mod 64 < 256" by simp
  then have u1: "unat ?b1 = 128 + ?n mod 64" by (rule unat_small)
  have r0: "\<not> ?b0 < 0x80" "\<not> ?b0 < 0xC2" "?b0 < 0xE0"
    using d by (simp_all only: word_less_nat_alt u0) simp_all
  have r1: "in_range 0x80 0xBF ?b1"
    by (simp only: in_range_def word_le_nat_alt u1) simp
  have e: "encode_utf8 (chr_iso b) = [?b0, ?b1]" by (rule enc_hi[OF assms])
  have v: "(unat ?b0 - 0xC0) * 64 + cont_bits ?b1 = ?n"
    by (simp only: u0 u1 cont_bits_def) simp
  have "decode_utf8 [?b0, ?b1] = map_option ((#) ((unat ?b0 - 0xC0) * 64 + cont_bits ?b1)) (decode_utf8 [])"
    using r0 r1 by (rule decode2)
  then show ?thesis
    by (simp only: e v decode_utf8.simps(1) option.map) (simp only: chr_iso_def)
qed

lemma iso_back: "encode_iso (chr_iso b) = Some b"
  using unsigned_less[of b, where 'a=nat] by (simp add: encode_iso_def chr_iso_def)

subsection \<open>Splitting into lines and joining them\<close>

lemma split_nl_not_Nil: "split_nl d \<noteq> []"
  by (induction d) (auto split: list.splits)

lemma join_nl_Cons: "ls \<noteq> [] \<Longrightarrow> join_nl (l # ls) = l @ NL # join_nl ls"
  by (cases ls) simp_all

lemma join_split_nl: "join_nl (split_nl d) = d"
proof (induction d)
  case Nil
  show ?case by simp
next
  case (Cons b d)
  obtain l ls where sp: "split_nl d = l # ls"
    using split_nl_not_Nil [of d] by (cases "split_nl d") auto
  show ?case
  proof (cases "b = NL")
    case True
    then show ?thesis using Cons split_nl_not_Nil [of d] by (simp add: join_nl_Cons)
  next
    case False
    then show ?thesis using Cons sp by (cases ls) simp_all
  qed
qed

lemma split_nl_no_NL: "l \<in> set (split_nl d) \<Longrightarrow> NL \<notin> set l"
proof (induction d arbitrary: l)
  case Nil
  then show ?case by simp
next
  case (Cons b d)
  then show ?case
    by (cases "split_nl d") (auto split: if_splits)
qed

lemma length_split_nl: "length (split_nl d) = Suc (count_list d NL)"
proof (induction d)
  case Nil
  show ?case by simp
next
  case (Cons b d)
  then show ?case by (cases "split_nl d") auto
qed

lemma split_nl_plain: "NL \<notin> set l \<Longrightarrow> split_nl l = [l]"
  by (induction l) auto

lemma split_nl_append: "NL \<notin> set l \<Longrightarrow> split_nl (l @ NL # d) = l # split_nl d"
  by (induction l) auto

lemma split_join_nl:
  "ls \<noteq> [] \<Longrightarrow> (\<And>l. l \<in> set ls \<Longrightarrow> NL \<notin> set l) \<Longrightarrow> split_nl (join_nl ls) = ls"
proof (induction ls rule: join_nl.induct)
  case 1
  then show ?case by simp
next
  case (2 l)
  then show ?case by (simp add: split_nl_plain)
next
  case (3 l v va)
  then show ?case by (simp add: split_nl_append)
qed

section \<open>Facts about the Converter\<close>

subsection \<open>One step of the loop over bytes\<close>

lemma ascii_flags_acc [simp]:
  "changes (ascii_flags b s) = changes s"
  "warnings (ascii_flags b s) = warnings s"
  "new_lines (ascii_flags b s) = new_lines s"
  "new_line (ascii_flags b s) = new_line s"
  by (simp_all add: ascii_flags_def)

lemma new_line_byte_step:
  "new_line (byte_step ln line col b s) = new_line s @ written_for s b"
  by (auto simp add: byte_step_def written_for_def in_comment_def Let_def)

lemma new_lines_byte_step [simp]:
  "new_lines (byte_step ln line col b s) = new_lines s"
  by (simp add: byte_step_def Let_def)

lemma changes_byte_step:
  "changes (byte_step ln line col b s) =
     changes s @
     (if b > 127 \<and> in_comment s
      then [\<lparr>c_line = ln, c_col = col + 1, c_byte = hex_byte b, c_char = chr_iso b\<rparr>]
      else [])"
  by (auto simp add: byte_step_def in_comment_def Let_def)

lemma warnings_byte_step:
  "warnings (byte_step ln line col b s) =
     warnings s @
     (if b > 127 \<and> \<not> in_comment s
      then [\<lparr>w_line = ln, w_col = col + 1, w_byte = hex_byte b, w_char = chr_iso b,
             w_context = warn_context line,
             w_reason = ''non-ASCII in code (not in comment)''\<rparr>]
      else [])"
  by (auto simp add: byte_step_def in_comment_def Let_def)

lemma flags_byte_step_high:
  assumes "b > 127"
  shows "in_block_comment (byte_step ln line col b s) = in_block_comment s"
    and "in_line_comment (byte_step ln line col b s) = in_line_comment s"
    and "in_string (byte_step ln line col b s) = in_string s"
    and "escape_next (byte_step ln line col b s) = escape_next s"
    and "prev_byte (byte_step ln line col b s) = b"
  using assms by (auto simp add: byte_step_def Let_def)

subsection \<open>The loop over the bytes of a line\<close>

lemma scan_bytes_append:
  "scan_bytes ln line col (xs @ ys) s =
     scan_bytes ln line (col + length xs) ys (scan_bytes ln line col xs s)"
  by (induction xs arbitrary: col s) simp_all

lemma scan_bytes_snoc:
  "scan_bytes ln line col (xs @ [x]) s =
     byte_step ln line (col + length xs) x (scan_bytes ln line col xs s)"
  by (simp add: scan_bytes_append)

lemma new_lines_scan_bytes [simp]:
  "new_lines (scan_bytes ln line col bs s) = new_lines s"
  by (induction bs arbitrary: col s) simp_all

lemma scan_bytes_acc:
  assumes step: "\<And>c b t. acc (byte_step ln line c b t) = acc t @ g c b t"
  shows "acc (scan_bytes ln line col bs s) =
           acc s @
           concat (map (\<lambda>j. g (col + j) (bs ! j) (scan_bytes ln line col (take j bs) s))
                       [0..<length bs])"
proof (induction bs rule: rev_induct)
  case Nil
  show ?case by simp
next
  case (snoc x xs)
  let ?F = "\<lambda>bs j. g (col + j) (bs ! j) (scan_bytes ln line col (take j bs) s)"
  have eq: "map (?F (xs @ [x])) [0..<length xs] = map (?F xs) [0..<length xs]"
    by (rule map_cong) (simp_all add: nth_append)
  have last: "?F (xs @ [x]) (length xs) = g (col + length xs) x (scan_bytes ln line col xs s)"
    by simp
  have "concat (map (?F (xs @ [x])) [0..<length (xs @ [x])]) =
        concat (map (?F (xs @ [x])) [0..<length xs]) @ ?F (xs @ [x]) (length xs)"
    by simp
  then have m: "concat (map (?F (xs @ [x])) [0..<length (xs @ [x])]) =
        concat (map (?F xs) [0..<length xs]) @ g (col + length xs) x (scan_bytes ln line col xs s)"
    by (simp only: eq last)
  have "acc (scan_bytes ln line col (xs @ [x]) s) =
        acc (scan_bytes ln line col xs s) @ g (col + length xs) x (scan_bytes ln line col xs s)"
    by (simp only: scan_bytes_snoc step)
  then show ?case
    by (simp only: m snoc append_assoc)
qed

lemma new_line_scan_bytes:
  "new_line (scan_bytes ln line col bs s) =
     new_line s @
     concat (map (\<lambda>j. written_for (scan_bytes ln line col (take j bs) s) (bs ! j))
                 [0..<length bs])"
  by (rule scan_bytes_acc [where g = "\<lambda>c b t. written_for t b"]) (rule new_line_byte_step)

lemma changes_scan_bytes:
  "changes (scan_bytes ln line col bs s) =
     changes s @
     concat (map (\<lambda>j. if bs ! j > 127 \<and> in_comment (scan_bytes ln line col (take j bs) s)
                      then [\<lparr>c_line = ln, c_col = col + j + 1, c_byte = hex_byte (bs ! j),
                             c_char = chr_iso (bs ! j)\<rparr>]
                      else [])
                 [0..<length bs])"
  by (rule scan_bytes_acc
        [where g = "\<lambda>c b t. if b > 127 \<and> in_comment t
                     then [\<lparr>c_line = ln, c_col = c + 1, c_byte = hex_byte b,
                            c_char = chr_iso b\<rparr>]
                     else []"])
     (rule changes_byte_step)

lemma warnings_scan_bytes:
  "warnings (scan_bytes ln line col bs s) =
     warnings s @
     concat (map (\<lambda>j. if bs ! j > 127 \<and> \<not> in_comment (scan_bytes ln line col (take j bs) s)
                      then [\<lparr>w_line = ln, w_col = col + j + 1, w_byte = hex_byte (bs ! j),
                             w_char = chr_iso (bs ! j), w_context = warn_context line,
                             w_reason = ''non-ASCII in code (not in comment)''\<rparr>]
                      else [])
                 [0..<length bs])"
  by (rule scan_bytes_acc
        [where g = "\<lambda>c b t. if b > 127 \<and> \<not> in_comment t
                     then [\<lparr>w_line = ln, w_col = c + 1, w_byte = hex_byte b,
                            w_char = chr_iso b, w_context = warn_context line,
                            w_reason = ''non-ASCII in code (not in comment)''\<rparr>]
                     else []"])
     (rule warnings_byte_step)

subsection \<open>The loop over lines\<close>

lemma scan_lines_append:
  "scan_lines n (xs @ ys) s = scan_lines (n + length xs) ys (scan_lines n xs s)"
  by (induction xs arbitrary: n s) simp_all

lemma scan_lines_snoc:
  "scan_lines n (xs @ [x]) s = line_step (n + length xs) x (scan_lines n xs s)"
  by (simp add: scan_lines_append)

lemma scan_lines_acc:
  assumes step: "\<And>m l t. acc (line_step m l t) = acc t @ g m l t"
  shows "acc (scan_lines n ls s) =
           acc s @
           concat (map (\<lambda>k. g (n + k) (ls ! k) (scan_lines n (take k ls) s)) [0..<length ls])"
proof (induction ls rule: rev_induct)
  case Nil
  show ?case by simp
next
  case (snoc x xs)
  let ?F = "\<lambda>ls k. g (n + k) (ls ! k) (scan_lines n (take k ls) s)"
  have eq: "map (?F (xs @ [x])) [0..<length xs] = map (?F xs) [0..<length xs]"
    by (rule map_cong) (simp_all add: nth_append)
  have last: "?F (xs @ [x]) (length xs) = g (n + length xs) x (scan_lines n xs s)"
    by simp
  have "concat (map (?F (xs @ [x])) [0..<length (xs @ [x])]) =
        concat (map (?F (xs @ [x])) [0..<length xs]) @ ?F (xs @ [x]) (length xs)"
    by simp
  then have m: "concat (map (?F (xs @ [x])) [0..<length (xs @ [x])]) =
        concat (map (?F xs) [0..<length xs]) @ g (n + length xs) x (scan_lines n xs s)"
    by (simp only: eq last)
  have "acc (scan_lines n (xs @ [x]) s) =
        acc (scan_lines n xs s) @ g (n + length xs) x (scan_lines n xs s)"
    by (simp only: scan_lines_snoc step)
  then show ?case
    by (simp only: m snoc append_assoc)
qed

lemma line_reset_acc [simp]:
  "changes (line_reset s) = changes s"
  "warnings (line_reset s) = warnings s"
  "new_lines (line_reset s) = new_lines s"
  "new_line (line_reset s) = []"
  "in_block_comment (line_reset s) = in_block_comment s"
  "in_line_comment (line_reset s) = False"
  "in_string (line_reset s) = False"
  "escape_next (line_reset s) = False"
  "prev_byte (line_reset s) = 0"
  by (simp_all add: line_reset_def)

lemma new_lines_line_step:
  "new_lines (line_step m l t) =
     new_lines t @
     [concat (map (\<lambda>j. written_for (scan_bytes m l 0 (take j l) (line_reset t)) (l ! j))
                  [0..<length l])]"
  by (simp add: line_step_def Let_def new_line_scan_bytes)

lemma changes_line_step:
  "changes (line_step m l t) =
     changes t @
     concat (map (\<lambda>j. if l ! j > 127 \<and> in_comment (scan_bytes m l 0 (take j l) (line_reset t))
                      then [\<lparr>c_line = m, c_col = j + 1, c_byte = hex_byte (l ! j),
                             c_char = chr_iso (l ! j)\<rparr>]
                      else [])
                 [0..<length l])"
  by (simp add: line_step_def Let_def changes_scan_bytes cong: if_cong)

lemma warnings_line_step:
  "warnings (line_step m l t) =
     warnings t @
     concat (map (\<lambda>j. if l ! j > 127 \<and> \<not> in_comment (scan_bytes m l 0 (take j l) (line_reset t))
                      then [\<lparr>w_line = m, w_col = j + 1, w_byte = hex_byte (l ! j),
                             w_char = chr_iso (l ! j), w_context = warn_context l,
                             w_reason = ''non-ASCII in code (not in comment)''\<rparr>]
                      else [])
                 [0..<length l])"
  by (simp add: line_step_def Let_def warnings_scan_bytes cong: if_cong)

lemma init_state_acc [simp]:
  "changes init_state = []" "warnings init_state = []" "new_lines init_state = []"
  "in_block_comment init_state = False"
  by (simp_all add: init_state_def)

lemma new_lines_scan_lines:
  "new_lines (scan_lines 1 ls init_state) = map (converted_line ls) [0..<length ls]"
proof -
  have "new_lines (scan_lines 1 ls init_state) =
          new_lines init_state @
          concat (map (\<lambda>k. [concat (map (\<lambda>j. written_for
                    (scan_bytes (1 + k) (ls ! k) 0 (take j (ls ! k))
                       (line_reset (scan_lines 1 (take k ls) init_state))) (ls ! k ! j))
                    [0..<length (ls ! k)])]) [0..<length ls])"
    by (rule scan_lines_acc
          [where g = "\<lambda>m l t. [concat (map (\<lambda>j. written_for
                         (scan_bytes m l 0 (take j l) (line_reset t)) (l ! j)) [0..<length l])]"])
       (rule new_lines_line_step)
  then show ?thesis
    by (simp add: converted_line_def state_before_def)
qed

lemma changes_scan_lines:
  "changes (scan_lines 1 ls init_state) =
     concat (map (\<lambda>k. concat (map (\<lambda>j.
         if ls ! k ! j > 127 \<and> in_comment (state_before ls k j)
         then [\<lparr>c_line = Suc k, c_col = j + 1, c_byte = hex_byte (ls ! k ! j),
                c_char = chr_iso (ls ! k ! j)\<rparr>]
         else []) [0..<length (ls ! k)])) [0..<length ls])"
proof -
  have "changes (scan_lines 1 ls init_state) =
          changes init_state @
          concat (map (\<lambda>k. concat (map (\<lambda>j.
              if ls ! k ! j > 127 \<and> in_comment (scan_bytes (1 + k) (ls ! k) 0 (take j (ls ! k))
                       (line_reset (scan_lines 1 (take k ls) init_state)))
              then [\<lparr>c_line = 1 + k, c_col = j + 1, c_byte = hex_byte (ls ! k ! j),
                     c_char = chr_iso (ls ! k ! j)\<rparr>]
              else []) [0..<length (ls ! k)])) [0..<length ls])"
    by (rule scan_lines_acc
          [where g = "\<lambda>m l t. concat (map (\<lambda>j.
              if l ! j > 127 \<and> in_comment (scan_bytes m l 0 (take j l) (line_reset t))
              then [\<lparr>c_line = m, c_col = j + 1, c_byte = hex_byte (l ! j),
                     c_char = chr_iso (l ! j)\<rparr>]
              else []) [0..<length l])"])
       (rule changes_line_step)
  then show ?thesis
    by (simp add: state_before_def cong: if_cong)
qed

lemma warnings_scan_lines:
  "warnings (scan_lines 1 ls init_state) =
     concat (map (\<lambda>k. concat (map (\<lambda>j.
         if ls ! k ! j > 127 \<and> \<not> in_comment (state_before ls k j)
         then [\<lparr>w_line = Suc k, w_col = j + 1, w_byte = hex_byte (ls ! k ! j),
                w_char = chr_iso (ls ! k ! j), w_context = warn_context (ls ! k),
                w_reason = ''non-ASCII in code (not in comment)''\<rparr>]
         else []) [0..<length (ls ! k)])) [0..<length ls])"
proof -
  have "warnings (scan_lines 1 ls init_state) =
          warnings init_state @
          concat (map (\<lambda>k. concat (map (\<lambda>j.
              if ls ! k ! j > 127 \<and> \<not> in_comment (scan_bytes (1 + k) (ls ! k) 0 (take j (ls ! k))
                       (line_reset (scan_lines 1 (take k ls) init_state)))
              then [\<lparr>w_line = 1 + k, w_col = j + 1, w_byte = hex_byte (ls ! k ! j),
                     w_char = chr_iso (ls ! k ! j), w_context = warn_context (ls ! k),
                     w_reason = ''non-ASCII in code (not in comment)''\<rparr>]
              else []) [0..<length (ls ! k)])) [0..<length ls])"
    by (rule scan_lines_acc
          [where g = "\<lambda>m l t. concat (map (\<lambda>j.
              if l ! j > 127 \<and> \<not> in_comment (scan_bytes m l 0 (take j l) (line_reset t))
              then [\<lparr>w_line = m, w_col = j + 1, w_byte = hex_byte (l ! j),
                     w_char = chr_iso (l ! j), w_context = warn_context l,
                     w_reason = ''non-ASCII in code (not in comment)''\<rparr>]
              else []) [0..<length l])"])
       (rule warnings_line_step)
  then show ?thesis
    by (simp add: state_before_def cong: if_cong)
qed

subsection \<open>One record for each byte above 127\<close>

lemma count_byte_step:
  "length (changes (byte_step ln line col b s)) + length (warnings (byte_step ln line col b s)) =
     length (changes s) + length (warnings s) + (if b > 127 then 1 else 0)"
  by (simp add: changes_byte_step warnings_byte_step)

lemma count_scan_bytes:
  "length (changes (scan_bytes ln line col bs s)) + length (warnings (scan_bytes ln line col bs s)) =
     length (changes s) + length (warnings s) + length (filter (\<lambda>b. b > 127) bs)"
  by (induction bs arbitrary: col s) (simp_all add: count_byte_step)

lemma count_line_step:
  "length (changes (line_step ln line s)) + length (warnings (line_step ln line s)) =
     length (changes s) + length (warnings s) + length (filter (\<lambda>b. b > 127) line)"
  using count_scan_bytes [of ln line 0 line "line_reset s"]
  by (simp add: line_step_def Let_def)

lemma count_scan_lines:
  "length (changes (scan_lines n ls s)) + length (warnings (scan_lines n ls s)) =
     length (changes s) + length (warnings s) + length (filter (\<lambda>b. b > 127) (concat ls))"
  by (induction ls arbitrary: n s) (simp_all add: count_line_step)

lemma filter_join_nl:
  "\<not> P NL \<Longrightarrow> filter P (join_nl ls) = filter P (concat ls)"
  by (induction ls rule: join_nl.induct) simp_all

lemma filter_high_split:
  "filter (\<lambda>b. b > 127) (concat (split_nl data)) = filter (\<lambda>b. b > 127) data"
  using filter_join_nl [of "\<lambda>b. b > 127" "split_nl data"] by (simp add: join_split_nl)

lemma count_records:
  "length (changes (scan_lines 1 (split_nl data) init_state)) +
   length (warnings (scan_lines 1 (split_nl data) init_state)) =
     length (filter (\<lambda>b. b > 127) data)"
  by (simp add: count_scan_lines filter_high_split)

lemma has_non_ascii_filter: "has_non_ascii data \<longleftrightarrow> filter (\<lambda>b. b > 127) data \<noteq> []"
  by (simp add: has_non_ascii_def list_ex_iff filter_empty_conv)

lemma valid_ascii: "\<not> has_non_ascii data \<Longrightarrow> is_valid_utf8 data"
proof (induction data)
  case Nil
  show ?case by (simp add: is_valid_utf8_def)
next
  case (Cons b data)
  then have "b < 0x80" and "is_valid_utf8 data"
    by (auto simp add: has_non_ascii_def word_less_nat_alt word_le_nat_alt)
  then show ?case
    by (auto simp add: is_valid_utf8_def split: option.splits)
qed

subsection \<open>When a file is skipped\<close>

text \<open>
  C6. \<open>process_file\<close> reports a file as skipped exactly when the file has no byte above
  127 or decodes as UTF-8. A skipped file comes back with no changes, no warnings, not
  modified and with its content untouched; a file that is not skipped always comes back
  with at least one change or warning, so the empty result characterises the skip. A
  file that is valid UTF-8 with curly quotes (E2 80 9C ... E2 80 9D) is skipped as
  already valid UTF-8.
\<close>

theorem process_file_skip:
  "(r_skipped (fst (process_file data dry_run)) \<noteq> None
      \<longleftrightarrow> \<not> has_non_ascii data \<or> is_valid_utf8 data)
   \<and> (r_changes (fst (process_file data dry_run)) = []
        \<and> r_warnings (fst (process_file data dry_run)) = []
        \<and> \<not> r_modified (fst (process_file data dry_run))
      \<longleftrightarrow> \<not> has_non_ascii data \<or> is_valid_utf8 data)
   \<and> (\<not> has_non_ascii data \<or> is_valid_utf8 data
        \<longrightarrow> snd (process_file data dry_run) = data)
   \<and> (r_skipped (fst (process_file data dry_run)) = Some ''no non-ASCII bytes''
        \<longleftrightarrow> \<not> has_non_ascii data)
   \<and> process_file [0xE2, 0x80, 0x9C, 0x68, 0x69, 0xE2, 0x80, 0x9D] dry_run =
       (\<lparr>r_changes = [], r_warnings = [], r_modified = False,
         r_skipped = Some ''already valid UTF-8''\<rparr>,
        [0xE2, 0x80, 0x9C, 0x68, 0x69, 0xE2, 0x80, 0x9D])"
proof -
  let ?S = "scan_lines 1 (split_nl data) init_state"
  have ne: "has_non_ascii data \<Longrightarrow> changes ?S \<noteq> [] \<or> warnings ?S \<noteq> []"
    using count_records [of data] by (auto simp add: has_non_ascii_filter)
  have a: "r_skipped (fst (process_file data dry_run)) \<noteq> None
      \<longleftrightarrow> \<not> has_non_ascii data \<or> is_valid_utf8 data"
    by (simp add: process_file_def Let_def)
  have b: "r_changes (fst (process_file data dry_run)) = []
        \<and> r_warnings (fst (process_file data dry_run)) = []
        \<and> \<not> r_modified (fst (process_file data dry_run))
      \<longleftrightarrow> \<not> has_non_ascii data \<or> is_valid_utf8 data"
    using ne by (auto simp add: process_file_def Let_def)
  have c: "\<not> has_non_ascii data \<or> is_valid_utf8 data
        \<longrightarrow> snd (process_file data dry_run) = data"
    by (auto simp add: process_file_def Let_def)
  have d: "r_skipped (fst (process_file data dry_run)) = Some ''no non-ASCII bytes''
        \<longleftrightarrow> \<not> has_non_ascii data"
    by (simp add: process_file_def Let_def)
  have e: "process_file [0xE2, 0x80, 0x9C, 0x68, 0x69, 0xE2, 0x80, 0x9D] dry_run =
       (\<lparr>r_changes = [], r_warnings = [], r_modified = False,
         r_skipped = Some ''already valid UTF-8''\<rparr>,
        [0xE2, 0x80, 0x9C, 0x68, 0x69, 0xE2, 0x80, 0x9D])"
    by (simp add: process_file_def has_non_ascii_def is_valid_utf8_def in_range_def
          second_lo_def second_hi_def)
  from a b c d e show ?thesis by blast
qed

theorem process_file_skip_witness:
  "r_skipped (fst (process_file [0x3B, 0x20] False)) = Some ''no non-ASCII bytes''
   \<and> snd (process_file [0x3B, 0x20] False) = [0x3B, 0x20]
   \<and> r_skipped (fst (process_file [0x3B, 0x20, 0xE9] False)) = None
   \<and> \<not> (r_changes (fst (process_file [0x3B, 0x20, 0xE9] False)) = []
          \<and> r_warnings (fst (process_file [0x3B, 0x20, 0xE9] False)) = []
          \<and> \<not> r_modified (fst (process_file [0x3B, 0x20, 0xE9] False)))"
proof -
  have v: "\<not> is_valid_utf8 [0x3B, 0x20, 0xE9]"
    by (simp add: is_valid_utf8_def)
  have h: "has_non_ascii [0x3B, 0x20, 0xE9]" "\<not> has_non_ascii [0x3B, 0x20]"
    by (simp_all add: has_non_ascii_def)
  show ?thesis
    using process_file_skip [of "[0x3B, 0x20, 0xE9]" False]
      process_file_skip [of "[0x3B, 0x20]" False] v h
    by simp
qed

subsection \<open>Round trip of a converted byte\<close>

text \<open>
  C5. A byte above 127 met inside a line or block comment is written as the UTF-8
  encoding of the code point with the same number; decoding these bytes as UTF-8 and
  mapping the code point back through ISO-8859-1 gives the original byte.
\<close>

theorem comment_byte_round_trip:
  assumes "b > 127" and "in_line_comment s \<or> in_block_comment s"
  shows "new_line (byte_step ln line col b s) = new_line s @ encode_utf8 (chr_iso b)
         \<and> length (encode_utf8 (chr_iso b)) = 2
         \<and> map_option (map encode_iso) (decode_utf8 (encode_utf8 (chr_iso b))) = Some [Some b]"
proof -
  have "written_for s b = encode_utf8 (chr_iso b)"
    using assms by (simp add: written_for_def in_comment_def)
  then have "new_line (byte_step ln line col b s) = new_line s @ encode_utf8 (chr_iso b)"
    by (simp add: new_line_byte_step)
  moreover have "length (encode_utf8 (chr_iso b)) = 2"
    using assms(1) by (simp add: enc_hi)
  moreover have "map_option (map encode_iso) (decode_utf8 (encode_utf8 (chr_iso b))) = Some [Some b]"
    using assms(1) by (simp add: dec_enc iso_back)
  ultimately show ?thesis by simp
qed

theorem comment_byte_round_trip_witness:
  "(0xE9 :: byte) > 127
   \<and> in_line_comment (init_state\<lparr>in_line_comment := True\<rparr>)
   \<and> new_line (byte_step 1 [0x3B, 0xE9] 1 0xE9 (init_state\<lparr>in_line_comment := True\<rparr>)) =
       [0xC3, 0xA9]
   \<and> map_option (map encode_iso) (decode_utf8 [0xC3, 0xA9]) = Some [Some 0xE9]"
proof -
  have h: "(0xE9 :: byte) > 127" by simp
  have c: "in_line_comment (init_state\<lparr>in_line_comment := True\<rparr>)
             \<or> in_block_comment (init_state\<lparr>in_line_comment := True\<rparr>)" by simp
  have e: "encode_utf8 (chr_iso 0xE9) = [0xC3, 0xA9]"
    by (simp add: encode_utf8_def chr_iso_def)
  show ?thesis
    using comment_byte_round_trip [OF h c, of 1 "[0x3B, 0xE9]" 1] h
    by (simp add: e init_state_def)
qed

subsection \<open>Classification\<close>

lemma cls_byte_step_high:
  "x > 127 \<Longrightarrow> cls_of (byte_step ln line col x s) = cls_of s"
  by (simp add: cls_of_def flags_byte_step_high)

lemma byte_step_ascii_flags:
  assumes "b \<le> 127"
  shows "in_block_comment (byte_step ln line col b s) = in_block_comment (ascii_flags b s)"
    and "in_line_comment (byte_step ln line col b s) = in_line_comment (ascii_flags b s)"
    and "in_string (byte_step ln line col b s) = in_string (ascii_flags b s)"
    and "escape_next (byte_step ln line col b s) = escape_next (ascii_flags b s)"
    and "prev_byte (byte_step ln line col b s) = b"
  using assms by (simp_all add: byte_step_def Let_def)

lemma cls_byte_step_ascii:
  "b \<le> 127 \<Longrightarrow> cls_of (byte_step ln line col b s) = cls_of (ascii_flags b s)"
  by (simp add: cls_of_def byte_step_ascii_flags)

text \<open>
  C4. A byte above 127 leaves the four classification flags as they are. It is never
  part of a marker: an ASCII byte that follows it is classified as if it were the first
  byte of the marker search (previous byte 0). So \<open>#|\<close> right after a non-ASCII byte
  opens a block comment from code, \<open>|#\<close> right after a non-ASCII byte closes an open
  block comment, and a non-ASCII byte right after either marker does not undo it.
\<close>

theorem non_ascii_byte_neutral:
  assumes "x > 127"
  shows "cls_of (byte_step ln line col x s) = cls_of s
    \<and> (b \<le> 127 \<longrightarrow>
           cls_of (byte_step ln line (Suc col) b (byte_step ln line col x s)) =
           cls_of (byte_step ln line (Suc col) b (s\<lparr>prev_byte := 0\<rparr>)))
    \<and> (cls_of s = (False, False, False, False) \<longrightarrow>
           cls_of (byte_step ln line (col + 2) ord_bar
                    (byte_step ln line (col + 1) ord_hash (byte_step ln line col x s))) =
           (True, False, False, False)
         \<and> cls_of (byte_step ln line (col + 2) x
                    (byte_step ln line (col + 1) ord_bar (byte_step ln line col ord_hash s))) =
           (True, False, False, False))
    \<and> (cls_of s = (True, False, False, False) \<longrightarrow>
           cls_of (byte_step ln line (col + 2) ord_hash
                    (byte_step ln line (col + 1) ord_bar (byte_step ln line col x s))) =
           (False, False, False, False)
         \<and> cls_of (byte_step ln line (col + 2) x
                    (byte_step ln line (col + 1) ord_hash (byte_step ln line col ord_bar s))) =
           (False, False, False, False))"
proof -
  have 1: "cls_of (byte_step ln line col x s) = cls_of s"
    using assms by (rule cls_byte_step_high)
  have nb: "x \<noteq> ord_bar" "x \<noteq> ord_hash"
    using assms by auto
  have 2: "cls_of (byte_step ln line (Suc col) b (byte_step ln line col x s)) =
        cls_of (byte_step ln line (Suc col) b (s\<lparr>prev_byte := 0\<rparr>))" if "b \<le> 127"
    using that assms nb
    by (simp add: cls_of_def byte_step_ascii_flags ascii_flags_def flags_byte_step_high)
  have 3: "cls_of (byte_step ln line (col + 2) ord_bar
                    (byte_step ln line (col + 1) ord_hash (byte_step ln line col x s))) =
           (True, False, False, False)" if "cls_of s = (False, False, False, False)"
    using that assms nb
    by (simp add: cls_byte_step_ascii cls_of_def ascii_flags_def flags_byte_step_high
          byte_step_ascii_flags)
  have 4: "cls_of (byte_step ln line (col + 2) x
                    (byte_step ln line (col + 1) ord_bar (byte_step ln line col ord_hash s))) =
           (True, False, False, False)" if "cls_of s = (False, False, False, False)"
    using that assms
    by (simp add: cls_byte_step_high cls_byte_step_ascii)
       (simp add: cls_of_def ascii_flags_def byte_step_ascii_flags)
  have 5: "cls_of (byte_step ln line (col + 2) ord_hash
                    (byte_step ln line (col + 1) ord_bar (byte_step ln line col x s))) =
           (False, False, False, False)" if "cls_of s = (True, False, False, False)"
    using that assms nb
    by (simp add: cls_byte_step_ascii cls_of_def ascii_flags_def flags_byte_step_high
          byte_step_ascii_flags)
  have 6: "cls_of (byte_step ln line (col + 2) x
                    (byte_step ln line (col + 1) ord_hash (byte_step ln line col ord_bar s))) =
           (False, False, False, False)" if "cls_of s = (True, False, False, False)"
    using that assms
    by (simp add: cls_byte_step_high cls_byte_step_ascii)
       (simp add: cls_of_def ascii_flags_def byte_step_ascii_flags)
  from 1 2 3 4 5 6 show ?thesis by blast
qed

theorem non_ascii_byte_neutral_witness:
  "(0xE9 :: byte) > 127 \<and> ord_semicolon \<le> (127 :: byte)
   \<and> cls_of init_state = (False, False, False, False)
   \<and> cls_of (init_state\<lparr>in_block_comment := True\<rparr>) = (True, False, False, False)
   \<and> cls_of (byte_step 1 [] 0 0xE9 init_state) = (False, False, False, False)
   \<and> cls_of (byte_step 1 [] 1 ord_semicolon (byte_step 1 [] 0 0xE9 init_state)) =
       (False, True, False, False)
   \<and> cls_of (byte_step 1 [] 2 ord_bar
               (byte_step 1 [] 1 ord_hash (byte_step 1 [] 0 0xE9 init_state))) =
       (True, False, False, False)
   \<and> cls_of (byte_step 1 [] 2 ord_hash
               (byte_step 1 [] 1 ord_bar
                 (byte_step 1 [] 0 0xE9 (init_state\<lparr>in_block_comment := True\<rparr>)))) =
       (False, False, False, False)"
proof -
  have h: "(0xE9 :: byte) > 127" by simp
  have a: "ord_semicolon \<le> (127 :: byte)" by simp
  have c0: "cls_of init_state = (False, False, False, False)"
    by (simp add: cls_of_def init_state_def)
  have c1: "cls_of (init_state\<lparr>in_block_comment := True\<rparr>) = (True, False, False, False)"
    by (simp add: cls_of_def init_state_def)
  have p: "cls_of (byte_step 1 [] 1 ord_semicolon (init_state\<lparr>prev_byte := 0\<rparr>)) =
           (False, True, False, False)"
    by (simp add: cls_of_def init_state_def byte_step_def ascii_flags_def)
  show ?thesis
    using non_ascii_byte_neutral [OF h, of 1 "[]" 0 init_state ord_semicolon]
      non_ascii_byte_neutral [OF h, of 1 "[]" 0 "init_state\<lparr>in_block_comment := True\<rparr>" ord_semicolon]
      h a c0 c1 p
    by (simp add: numeral_2_eq_2)
qed

subsection \<open>A pending escape and a non-ASCII byte\<close>

text \<open>
  C7, at the input \<open>"\\\<close> 0xE9 \<open>" ; \<close> 0xE9: the backslash in the string sets the pending
  escape, the byte 0xE9 after it leaves the escape pending, and the escape then swallows
  the closing quote. The string stays open to the end of the line, so the byte 0xE9
  after the semicolon is reported as non-ASCII in code and nothing is converted. With
  the letter \<open>a\<close> in place of the escaped byte 0xE9, the escape ends at the letter, the
  quote closes the string and the byte in the comment is converted.
\<close>

theorem escape_outlives_non_ascii_byte:
  "escape_next (state_before [[0x22, 0x5C, 0xE9, 0x22, 0x20, 0x3B, 0x20, 0xE9]] 0 2)
   \<and> escape_next (state_before [[0x22, 0x5C, 0xE9, 0x22, 0x20, 0x3B, 0x20, 0xE9]] 0 3)
   \<and> in_string (state_before [[0x22, 0x5C, 0xE9, 0x22, 0x20, 0x3B, 0x20, 0xE9]] 0 4)
   \<and> \<not> in_comment (state_before [[0x22, 0x5C, 0xE9, 0x22, 0x20, 0x3B, 0x20, 0xE9]] 0 7)
   \<and> r_changes (fst (process_file [0x22, 0x5C, 0xE9, 0x22, 0x20, 0x3B, 0x20, 0xE9] False)) = []
   \<and> map w_col (r_warnings (fst (process_file [0x22, 0x5C, 0xE9, 0x22, 0x20, 0x3B, 0x20, 0xE9] False)))
       = [3, 8]
   \<and> \<not> escape_next (state_before [[0x22, 0x5C, 0x61, 0x22, 0x20, 0x3B, 0x20, 0xE9]] 0 3)
   \<and> \<not> in_string (state_before [[0x22, 0x5C, 0x61, 0x22, 0x20, 0x3B, 0x20, 0xE9]] 0 4)
   \<and> map c_col (r_changes (fst (process_file [0x22, 0x5C, 0x61, 0x22, 0x20, 0x3B, 0x20, 0xE9] False)))
       = [8]
   \<and> r_warnings (fst (process_file [0x22, 0x5C, 0x61, 0x22, 0x20, 0x3B, 0x20, 0xE9] False)) = []"
  by (simp add: state_before_def in_comment_def process_file_def has_non_ascii_def
        is_valid_utf8_def line_step_def line_reset_def init_state_def byte_step_def
        ascii_flags_def Let_def in_range_def second_lo_def second_hi_def)

subsection \<open>Running the Converter twice\<close>

text \<open>
  C1 as stated fails at the file \<open>"\<close> 0xE9 \<open>" ; \<close> 0xE9: the first run converts the
  byte in the comment and leaves the byte in the string. The result is still not valid
  UTF-8, so the second run is not skipped; it converts the two bytes the first run wrote
  and reports two changes.
\<close>

theorem second_run_converts_again:
  "snd (process_file [0x22, 0xE9, 0x22, 0x20, 0x3B, 0x20, 0xE9] False) =
     [0x22, 0xE9, 0x22, 0x20, 0x3B, 0x20, 0xC3, 0xA9]
   \<and> map c_col (r_changes (fst (process_file
         (snd (process_file [0x22, 0xE9, 0x22, 0x20, 0x3B, 0x20, 0xE9] False)) False))) = [7, 8]
   \<and> snd (process_file
         (snd (process_file [0x22, 0xE9, 0x22, 0x20, 0x3B, 0x20, 0xE9] False)) False) =
     [0x22, 0xE9, 0x22, 0x20, 0x3B, 0x20, 0xC3, 0x83, 0xC2, 0xA9]"
proof -
  have first: "snd (process_file [0x22, 0xE9, 0x22, 0x20, 0x3B, 0x20, 0xE9] False) =
     [0x22, 0xE9, 0x22, 0x20, 0x3B, 0x20, 0xC3, 0xA9]"
    by (simp add: process_file_def has_non_ascii_def
        is_valid_utf8_def line_step_def line_reset_def init_state_def byte_step_def
        ascii_flags_def Let_def encode_utf8_def chr_iso_def in_range_def second_lo_def
        second_hi_def)
  show ?thesis
    by (simp only: first)
       (simp add: process_file_def has_non_ascii_def
        is_valid_utf8_def line_step_def line_reset_def init_state_def byte_step_def
        ascii_flags_def Let_def encode_utf8_def chr_iso_def in_range_def second_lo_def
        second_hi_def)
qed

section \<open>The Verifier on a stray continuation byte\<close>

text \<open>
  C3, at the file \<open>c\<close> 0xA9 (an ISO-8859-1 copyright sign after an ASCII letter): the
  content is not valid UTF-8, yet \<open>verify_file\<close> reports no problem, the file is counted
  as valid and the exit code is 0. The search for the start of the sequence backs up
  from the byte 0xA9, which has the bit pattern of a continuation byte, to the letter,
  and the problem is only reported when the index is the start.
\<close>

theorem verify_misses_stray_continuation_byte:
  "\<not> is_valid_utf8 [0x63, 0xA9]
   \<and> back_up [0x63, 0xA9] 1 = 0
   \<and> verify_file [0x63, 0xA9] = []
   \<and> verify_files [(''a.lisp'', [0x63, 0xA9])] = (1, [])
   \<and> verify_exit_code [(''a.lisp'', [0x63, 0xA9])] = 0"
  by (simp add: is_valid_utf8_def verify_file_def problem_at_def verify_exit_code_def
        find_end.simps slice_def Let_def in_range_def second_lo_def second_hi_def)

section \<open>More facts about the Converter\<close>

subsection \<open>The content written back\<close>

lemma unat_neq: "unat (w :: byte) \<noteq> unat v \<Longrightarrow> w \<noteq> v"
  by auto

lemma notin_pair: "x \<noteq> c \<Longrightarrow> y \<noteq> c \<Longrightarrow> c \<notin> set [x, y]"
  by auto

lemma encode_high_no_NL: "b > 127 \<Longrightarrow> NL \<notin> set (encode_utf8 (chr_iso b))"
proof -
  assume h: "b > 127"
  let ?n = "unat b"
  from h have n: "128 \<le> ?n" "?n < 256" using hi_unat by auto
  have d: "2 \<le> ?n div 64 \<and> ?n div 64 < 4" using n by (rule div64)
  have "192 + ?n div 64 < 256" using d by linarith
  then have u0: "unat (of_nat (192 + ?n div 64) :: byte) = 192 + ?n div 64" by (rule unat_small)
  have "128 + ?n mod 64 < 256" by simp
  then have u1: "unat (of_nat (128 + ?n mod 64) :: byte) = 128 + ?n mod 64" by (rule unat_small)
  have "unat (of_nat (192 + ?n div 64) :: byte) \<noteq> unat NL"
    by (simp only: u0) simp
  then have a: "(of_nat (192 + ?n div 64) :: byte) \<noteq> NL" by (rule unat_neq)
  have "unat (of_nat (128 + ?n mod 64) :: byte) \<noteq> unat NL"
    by (simp only: u1) simp
  then have b: "(of_nat (128 + ?n mod 64) :: byte) \<noteq> NL" by (rule unat_neq)
  show ?thesis
    by (simp only: enc_hi [OF h]) (rule notin_pair [OF a b])
qed

lemma written_for_no_NL: "b \<noteq> NL \<Longrightarrow> NL \<notin> set (written_for s b)"
  using encode_high_no_NL [of b] by (simp add: written_for_def)

lemma converted_line_no_NL:
  assumes "NL \<notin> set (ls ! k)"
  shows "NL \<notin> set (converted_line ls k)"
proof -
  have "\<And>c. c < length (ls ! k) \<Longrightarrow> NL \<notin> set (written_for (state_before ls k c) (ls ! k ! c))"
    using assms by (intro written_for_no_NL) (metis nth_mem)
  then show ?thesis by (auto simp add: converted_line_def)
qed

lemma concat_map_Nil_iff:
  "concat (map f xs) = [] \<longleftrightarrow> (\<forall>x \<in> set xs. f x = [])"
  by (induction xs) auto

lemma no_changes_no_comment_byte:
  assumes "changes (scan_lines 1 ls init_state) = []" and "k < length ls" and "j < length (ls ! k)"
  shows "\<not> (ls ! k ! j > 127 \<and> in_comment (state_before ls k j))"
proof
  assume P: "ls ! k ! j > 127 \<and> in_comment (state_before ls k j)"
  let ?f = "\<lambda>k j. if ls ! k ! j > 127 \<and> in_comment (state_before ls k j)
         then [\<lparr>c_line = Suc k, c_col = j + 1, c_byte = hex_byte (ls ! k ! j),
                c_char = chr_iso (ls ! k ! j)\<rparr>]
         else []"
  from assms(1) have "concat (map (\<lambda>k. concat (map (?f k) [0..<length (ls ! k)])) [0..<length ls]) = []"
    by (simp only: changes_scan_lines)
  then have "concat (map (?f k) [0..<length (ls ! k)]) = []"
    using assms(2) by (simp only: concat_map_Nil_iff) simp
  then have "?f k j = []"
    using assms(3) by (simp only: concat_map_Nil_iff) simp
  with P show False by simp
qed

lemma no_changes_converted_line:
  assumes "changes (scan_lines 1 ls init_state) = []" and "k < length ls"
  shows "converted_line ls k = ls ! k"
proof -
  have "map (\<lambda>c. written_for (state_before ls k c) (ls ! k ! c)) [0..<length (ls ! k)] =
        map (\<lambda>c. [ls ! k ! c]) [0..<length (ls ! k)]"
    using no_changes_no_comment_byte [OF assms]
    by (intro map_cong) (auto simp add: written_for_def)
  then have "converted_line ls k = concat (map (\<lambda>c. [ls ! k ! c]) [0..<length (ls ! k)])"
    by (simp only: converted_line_def)
  also have "\<dots> = map (\<lambda>c. ls ! k ! c) [0..<length (ls ! k)]"
    by (induction "ls ! k" rule: rev_induct) simp_all
  also have "\<dots> = ls ! k" by (rule map_nth)
  finally show ?thesis .
qed

lemma converted_lines_split:
  "split_nl (join_nl (map (converted_line (split_nl data)) [0..<length (split_nl data)])) =
     map (converted_line (split_nl data)) [0..<length (split_nl data)]"
proof (rule split_join_nl)
  show "map (converted_line (split_nl data)) [0..<length (split_nl data)] \<noteq> []"
    using split_nl_not_Nil [of data] by simp
next
  fix l
  assume "l \<in> set (map (converted_line (split_nl data)) [0..<length (split_nl data)])"
  then obtain k where k: "k < length (split_nl data)" and l: "l = converted_line (split_nl data) k"
    by auto
  from k have "NL \<notin> set (split_nl data ! k)"
    by (intro split_nl_no_NL [of _ data]) simp
  then show "NL \<notin> set l"
    unfolding l by (rule converted_line_no_NL)
qed

lemma length_written_for:
  "length (written_for s b) = (if b > 127 \<and> in_comment s then 2 else 1)"
  by (auto simp add: written_for_def enc_hi)

lemma concat_upt_split:
  "c < n \<Longrightarrow>
     concat (map f [0..<n]) = concat (map f [0..<c]) @ f c @ concat (map f [Suc c..<n])"
proof -
  assume "c < n"
  then have "[0..<n] = [0..<c] @ [c..<n]" and "[c..<n] = c # [Suc c..<n]"
    using upt_add_eq_append [of 0 c "n - c"] by (simp_all add: upt_conv_Cons)
  then have "[0..<n] = [0..<c] @ c # [Suc c..<n]" by simp
  then have "map f [0..<n] = map f [0..<c] @ f c # map f [Suc c..<n]"
    by (simp only: map_append list.map)
  then show ?thesis by (simp only: concat_append concat.simps)
qed

lemma length_converted_prefix:
  "length (concat (map (\<lambda>j. written_for (state_before ls k j) (ls ! k ! j)) [0..<c])) =
     c + converted_before ls k c"
  by (induction c) (simp_all add: converted_before_def length_written_for)

lemma converted_line_at:
  assumes "c < length (ls ! k)"
  shows "take (length (written_for (state_before ls k c) (ls ! k ! c)))
              (drop (c + converted_before ls k c) (converted_line ls k)) =
         written_for (state_before ls k c) (ls ! k ! c)"
proof -
  let ?f = "\<lambda>j. written_for (state_before ls k j) (ls ! k ! j)"
  have "converted_line ls k =
        concat (map ?f [0..<c]) @ ?f c @ concat (map ?f [Suc c..<length (ls ! k)])"
    unfolding converted_line_def using assms by (rule concat_upt_split)
  then have "drop (length (concat (map ?f [0..<c]))) (converted_line ls k) =
        ?f c @ concat (map ?f [Suc c..<length (ls ! k)])"
    by simp
  then have "drop (c + converted_before ls k c) (converted_line ls k) =
        ?f c @ concat (map ?f [Suc c..<length (ls ! k)])"
    by (simp only: length_converted_prefix)
  then show ?thesis by simp
qed

lemma converted_line_code_byte:
  assumes "c < length (ls ! k)"
    and "\<not> (ls ! k ! c > 127 \<and> in_comment (state_before ls k c))"
  shows "converted_line ls k ! (c + converted_before ls k c) = ls ! k ! c"
proof -
  have w: "written_for (state_before ls k c) (ls ! k ! c) = [ls ! k ! c]"
    using assms(2) by (auto simp add: written_for_def)
  have "take 1 (drop (c + converted_before ls k c) (converted_line ls k)) = [ls ! k ! c]"
    using converted_line_at [OF assms(1)] by (simp only: w) simp
  then show ?thesis
    by (metis hd_drop_conv_nth hd_take list.sel(1) take_eq_Nil2 zero_less_one
          drop_all not_less list.distinct(1) take_Nil)
qed

lemma converted_line_comment_byte:
  assumes "c < length (ls ! k)"
    and "ls ! k ! c > 127 \<and> in_comment (state_before ls k c)"
  shows "take 2 (drop (c + converted_before ls k c) (converted_line ls k)) =
           encode_utf8 (chr_iso (ls ! k ! c))"
proof -
  have w: "written_for (state_before ls k c) (ls ! k ! c) = encode_utf8 (chr_iso (ls ! k ! c))"
    using assms(2) by (simp add: written_for_def)
  have "length (encode_utf8 (chr_iso (ls ! k ! c))) = 2"
    using assms(2) by (simp add: enc_hi)
  then show ?thesis
    using converted_line_at [OF assms(1)] by (simp only: w)
qed

text \<open>
  C2. For a file that is converted (it has a byte above 127 and is not valid UTF-8) and
  with \<open>dry_run\<close> off, the content of the file after the call is, line by line, the
  concatenation in order of what is written for each byte of the line: the UTF-8
  encoding of its code point for a byte above 127 classified as inside a line or block
  comment, and the byte itself for every other byte (all ASCII bytes, and the bytes
  above 127 outside comments). The lines of the output are the converted lines of the
  input, so the number of lines and the number of newline separators are those of the
  input. In its line, a byte that is not converted is found unchanged at its column
  plus the number of converted bytes before it, and a converted byte is found there as
  the two bytes of its encoding.
\<close>

theorem converted_content:
  assumes "has_non_ascii data" and "\<not> is_valid_utf8 data"
  shows "snd (process_file data False) =
           join_nl (map (converted_line (split_nl data)) [0..<length (split_nl data)])
         \<and> split_nl (snd (process_file data False)) =
           map (converted_line (split_nl data)) [0..<length (split_nl data)]
         \<and> length (split_nl (snd (process_file data False))) = length (split_nl data)
         \<and> count_list (snd (process_file data False)) NL = count_list data NL
         \<and> (\<forall>k c. k < length (split_nl data) \<and> c < length (split_nl data ! k)
                \<and> \<not> (split_nl data ! k ! c > 127
                       \<and> in_comment (state_before (split_nl data) k c)) \<longrightarrow>
              split_nl (snd (process_file data False)) ! k
                ! (c + converted_before (split_nl data) k c) = split_nl data ! k ! c)
         \<and> (\<forall>k c. k < length (split_nl data) \<and> c < length (split_nl data ! k)
                \<and> split_nl data ! k ! c > 127
                \<and> in_comment (state_before (split_nl data) k c) \<longrightarrow>
              take 2 (drop (c + converted_before (split_nl data) k c)
                        (split_nl (snd (process_file data False)) ! k)) =
                encode_utf8 (chr_iso (split_nl data ! k ! c)))"
proof -
  let ?ls = "split_nl data"
  let ?S = "scan_lines 1 ?ls init_state"
  let ?out = "snd (process_file data False)"
  have out: "?out = join_nl (map (converted_line ?ls) [0..<length ?ls])"
  proof (cases "changes ?S = []")
    case True
    then have "map (converted_line ?ls) [0..<length ?ls] = map (\<lambda>k. ?ls ! k) [0..<length ?ls]"
      by (intro map_cong) (simp_all add: no_changes_converted_line)
    then have "map (converted_line ?ls) [0..<length ?ls] = ?ls"
      by (simp only: map_nth)
    then have "join_nl (map (converted_line ?ls) [0..<length ?ls]) = data"
      by (simp only: join_split_nl)
    moreover have "?out = data"
      using assms True by (simp add: process_file_def Let_def)
    ultimately show ?thesis by simp
  next
    case False
    then have "?out = join_nl (new_lines ?S)"
      using assms by (simp add: process_file_def Let_def)
    then show ?thesis by (simp only: new_lines_scan_lines)
  qed
  have sp: "split_nl ?out = map (converted_line ?ls) [0..<length ?ls]"
    by (simp only: out converted_lines_split)
  have len: "length (split_nl ?out) = length ?ls"
    by (simp only: sp) simp
  have "Suc (count_list ?out NL) = Suc (count_list data NL)"
    using len by (simp only: length_split_nl)
  then have cnt: "count_list ?out NL = count_list data NL" by simp
  have line: "split_nl ?out ! k = converted_line ?ls k" if "k < length ?ls" for k
    using that by (simp only: sp) simp
  have code: "split_nl ?out ! k ! (c + converted_before ?ls k c) = ?ls ! k ! c"
    if "k < length ?ls \<and> c < length (?ls ! k)
        \<and> \<not> (?ls ! k ! c > 127 \<and> in_comment (state_before ?ls k c))" for k c
    using that converted_line_code_byte [of c ?ls k] line [of k] by auto
  have comm: "take 2 (drop (c + converted_before ?ls k c) (split_nl ?out ! k)) =
                encode_utf8 (chr_iso (?ls ! k ! c))"
    if "k < length ?ls \<and> c < length (?ls ! k)
        \<and> ?ls ! k ! c > 127 \<and> in_comment (state_before ?ls k c)" for k c
    using that converted_line_comment_byte [of c ?ls k] line [of k] by auto
  from out sp len cnt code comm show ?thesis by blast
qed

theorem converted_content_witness:
  "has_non_ascii [0xE9, 0x3B, 0xE9, 0x0A, 0x61] \<and> \<not> is_valid_utf8 [0xE9, 0x3B, 0xE9, 0x0A, 0x61]
   \<and> snd (process_file [0xE9, 0x3B, 0xE9, 0x0A, 0x61] False) = [0xE9, 0x3B, 0xC3, 0xA9, 0x0A, 0x61]
   \<and> split_nl (snd (process_file [0xE9, 0x3B, 0xE9, 0x0A, 0x61] False)) =
       [[0xE9, 0x3B, 0xC3, 0xA9], [0x61]]
   \<and> count_list (snd (process_file [0xE9, 0x3B, 0xE9, 0x0A, 0x61] False)) NL = 1"
proof -
  have h: "has_non_ascii [0xE9, 0x3B, 0xE9, 0x0A, 0x61]"
    by (simp add: has_non_ascii_def)
  have v: "\<not> is_valid_utf8 [0xE9, 0x3B, 0xE9, 0x0A, 0x61]"
    by (simp add: is_valid_utf8_def in_range_def second_lo_def second_hi_def)
  have c0: "converted_line [[0xE9, 0x3B, 0xE9], [0x61]] 0 = [0xE9, 0x3B, 0xC3, 0xA9]"
    by (simp add: converted_line_def state_before_def written_for_def in_comment_def
          line_step_def line_reset_def init_state_def byte_step_def ascii_flags_def Let_def
          encode_utf8_def chr_iso_def upt_rec)
  have c1: "converted_line [[0xE9, 0x3B, 0xE9], [0x61]] (Suc 0) = [0x61]"
    by (simp add: converted_line_def state_before_def written_for_def in_comment_def
          line_step_def line_reset_def init_state_def byte_step_def ascii_flags_def Let_def
          encode_utf8_def chr_iso_def upt_rec)
  have "snd (process_file [0xE9, 0x3B, 0xE9, 0x0A, 0x61] False) =
           join_nl (map (converted_line (split_nl [0xE9, 0x3B, 0xE9, 0x0A, 0x61]))
                        [0..<length (split_nl [0xE9, 0x3B, 0xE9, 0x0A, 0x61])])
         \<and> split_nl (snd (process_file [0xE9, 0x3B, 0xE9, 0x0A, 0x61] False)) =
           map (converted_line (split_nl [0xE9, 0x3B, 0xE9, 0x0A, 0x61]))
               [0..<length (split_nl [0xE9, 0x3B, 0xE9, 0x0A, 0x61])]
         \<and> count_list (snd (process_file [0xE9, 0x3B, 0xE9, 0x0A, 0x61] False)) NL =
             count_list [0xE9, 0x3B, 0xE9, 0x0A, 0x61] NL"
    using converted_content [OF h v] by blast
  then show ?thesis
    using h v by (simp add: c0 c1)
qed

subsection \<open>What crosses a line boundary\<close>

lemma string_excl_byte_step:
  assumes "escape_next s \<longrightarrow> in_string s"
    and "in_string s \<longrightarrow> \<not> in_block_comment s \<and> \<not> in_line_comment s"
  shows "(escape_next (byte_step ln line col b s) \<longrightarrow> in_string (byte_step ln line col b s))
       \<and> (in_string (byte_step ln line col b s) \<longrightarrow>
            \<not> in_block_comment (byte_step ln line col b s)
            \<and> \<not> in_line_comment (byte_step ln line col b s))"
proof (cases "b \<le> 127")
  case True
  then show ?thesis
    using assms by (auto simp add: byte_step_ascii_flags ascii_flags_def)
next
  case False
  then have "b > 127" by simp
  then show ?thesis
    using assms by (simp add: flags_byte_step_high)
qed

lemma string_excl_scan_bytes:
  assumes "escape_next s \<longrightarrow> in_string s"
    and "in_string s \<longrightarrow> \<not> in_block_comment s \<and> \<not> in_line_comment s"
  shows "(escape_next (scan_bytes ln line col bs s) \<longrightarrow> in_string (scan_bytes ln line col bs s))
       \<and> (in_string (scan_bytes ln line col bs s) \<longrightarrow>
            \<not> in_block_comment (scan_bytes ln line col bs s)
            \<and> \<not> in_line_comment (scan_bytes ln line col bs s))"
  using assms
proof (induction bs arbitrary: col s)
  case Nil
  then show ?case by simp
next
  case (Cons b bs)
  show ?case
    using Cons.IH [of "byte_step ln line col b s" "Suc col"]
      string_excl_byte_step [OF Cons.prems, of ln line col b]
    by simp
qed

lemma block_not_escape_state_before:
  "in_block_comment (state_before ls k c) \<Longrightarrow> \<not> escape_next (state_before ls k c)"
  using string_excl_scan_bytes
          [of "line_reset (scan_lines 1 (take k ls) init_state)" "Suc k" "ls ! k" 0
              "take c (ls ! k)"]
  by (auto simp add: state_before_def)

lemma prev_byte_byte_step [simp]: "prev_byte (byte_step ln line col b s) = b"
  by (simp add: byte_step_def Let_def)

lemma state_before_Suc:
  "c < length (ls ! k) \<Longrightarrow>
     state_before ls k (Suc c) = byte_step (Suc k) (ls ! k) c (ls ! k ! c) (state_before ls k c)"
  by (simp add: state_before_def take_Suc_conv_app_nth scan_bytes_snoc)

lemma state_before_line_start:
  "state_before ls k 0 = line_reset (scan_lines 1 (take k ls) init_state)"
  by (simp add: state_before_def)

lemma in_block_line_step:
  "in_block_comment (line_step ln line s) =
     in_block_comment (scan_bytes ln line 0 line (line_reset s))"
  by (simp add: line_step_def Let_def)

lemma block_flag_carried:
  assumes "k < length ls"
  shows "in_block_comment (state_before ls (Suc k) 0) =
         in_block_comment (state_before ls k (length (ls ! k)))"
proof -
  have "scan_lines 1 (take (Suc k) ls) init_state =
        line_step (Suc k) (ls ! k) (scan_lines 1 (take k ls) init_state)"
    using assms by (simp add: take_Suc_conv_app_nth scan_lines_snoc)
  then show ?thesis
    by (simp add: state_before_def in_block_line_step)
qed

lemma has_close_iff:
  "has_close l \<longleftrightarrow> (\<exists>p. Suc p < length l \<and> l ! p = ord_bar \<and> l ! Suc p = ord_hash)"
proof (induction l rule: has_close.induct)
  case (1 x y r)
  show ?case
  proof
    assume "has_close (x # y # r)"
    then consider "x = ord_bar \<and> y = ord_hash" | "has_close (y # r)" by auto
    then show "\<exists>p. Suc p < length (x # y # r) \<and> (x # y # r) ! p = ord_bar
                 \<and> (x # y # r) ! Suc p = ord_hash"
    proof cases
      case 1
      then show ?thesis by (intro exI [of _ 0]) simp
    next
      case 2
      then obtain p where "Suc p < length (y # r)" "(y # r) ! p = ord_bar"
          "(y # r) ! Suc p = ord_hash"
        using "1.IH" by blast
      then show ?thesis by (intro exI [of _ "Suc p"]) simp
    qed
  next
    assume "\<exists>p. Suc p < length (x # y # r) \<and> (x # y # r) ! p = ord_bar
                 \<and> (x # y # r) ! Suc p = ord_hash"
    then obtain p where p: "Suc p < length (x # y # r)" "(x # y # r) ! p = ord_bar"
        "(x # y # r) ! Suc p = ord_hash" by blast
    show "has_close (x # y # r)"
    proof (cases p)
      case 0
      with p show ?thesis by simp
    next
      case (Suc q)
      with p have "Suc q < length (y # r)" "(y # r) ! q = ord_bar" "(y # r) ! Suc q = ord_hash"
        by simp_all
      then have "has_close (y # r)" using "1.IH" by blast
      then show ?thesis by simp
    qed
  qed
qed simp_all

lemma has_close_Cons_other: "x \<noteq> ord_bar \<Longrightarrow> has_close (x # l) = has_close l"
  by (cases l) auto

lemma has_close_take: "has_close (take c l) \<Longrightarrow> has_close l"
  by (auto simp add: has_close_iff)

lemma block_persists_scan_bytes:
  assumes "in_block_comment s" and "\<not> escape_next s" and "\<not> has_close (prev_byte s # bs)"
  shows "in_block_comment (scan_bytes ln line col bs s)"
  using assms
proof (induction bs arbitrary: col s)
  case Nil
  then show ?case by simp
next
  case (Cons b bs)
  let ?t = "byte_step ln line col b s"
  from Cons.prems(3) have nc: "\<not> (prev_byte s = ord_bar \<and> b = ord_hash)"
    and rest: "\<not> has_close (b # bs)" by simp_all
  have "in_block_comment ?t \<and> \<not> escape_next ?t"
  proof (cases "b \<le> 127")
    case True
    then show ?thesis
      using Cons.prems(1,2) nc by (simp add: byte_step_ascii_flags ascii_flags_def)
  next
    case False
    then have "b > 127" by simp
    then show ?thesis
      using Cons.prems(1,2) by (simp add: flags_byte_step_high)
  qed
  moreover have "\<not> has_close (prev_byte ?t # bs)" using rest by simp
  ultimately show ?case using Cons.IH [of ?t "Suc col"] by simp
qed

lemma block_persists_in_line:
  assumes "in_block_comment (state_before ls k 0)" and "\<not> has_close (ls ! k)"
  shows "in_block_comment (state_before ls k c)"
proof -
  let ?s = "line_reset (scan_lines 1 (take k ls) init_state)"
  have "\<not> has_close (take c (ls ! k))" using assms(2) has_close_take by blast
  then have "\<not> has_close (prev_byte ?s # take c (ls ! k))"
    by (simp add: has_close_Cons_other)
  moreover have "in_block_comment ?s" using assms(1) by (simp add: state_before_def)
  moreover have "\<not> escape_next ?s" by simp
  ultimately show ?thesis
    unfolding state_before_def by (intro block_persists_scan_bytes)
qed

lemma block_persists_lines:
  assumes "in_block_comment (state_before ls k 0)"
    and "\<And>i. k \<le> i \<Longrightarrow> i < k + n \<Longrightarrow> \<not> has_close (ls ! i)"
    and "k + n \<le> length ls"
  shows "in_block_comment (state_before ls (k + n) 0)"
  using assms(2,3)
proof (induction n)
  case 0
  show ?case using assms(1) by simp
next
  case (Suc n)
  have "in_block_comment (state_before ls (k + n) 0)"
    using Suc by simp
  moreover have "\<not> has_close (ls ! (k + n))" using Suc.prems(1) by simp
  ultimately have "in_block_comment (state_before ls (k + n) (length (ls ! (k + n))))"
    by (rule block_persists_in_line)
  moreover have "k + n < length ls" using Suc.prems(2) by simp
  ultimately show ?case by (simp add: block_flag_carried)
qed

lemma block_closes:
  assumes "Suc p < length (ls ! k)" and "ls ! k ! p = ord_bar" and "ls ! k ! Suc p = ord_hash"
    and "in_block_comment (state_before ls k (Suc p))"
  shows "\<not> in_block_comment (state_before ls k (Suc (Suc p)))"
proof -
  let ?s = "state_before ls k (Suc p)"
  have e: "\<not> escape_next ?s" using assms(4) by (rule block_not_escape_state_before)
  have "p < length (ls ! k)" using assms(1) by simp
  then have pb: "prev_byte ?s = ord_bar"
    using assms(2) by (simp add: state_before_Suc)
  have "state_before ls k (Suc (Suc p)) = byte_step (Suc k) (ls ! k) (Suc p) ord_hash ?s"
    using assms(1,3) state_before_Suc [of "Suc p" ls k] by simp
  then show ?thesis
    using e pb assms(4) by (simp add: byte_step_ascii_flags ascii_flags_def)
qed

text \<open>
  C8. At the start of every line the line-comment flag, the string flag and the pending
  escape are off and the previous byte is 0; the block-comment flag is the one the
  previous line ended with (off before the first line). A block comment that is open at
  the start of a line stays open on every byte of that line when the line has no
  \<open>|#\<close>, hence over any run of such lines; and where \<open>|#\<close> is met inside an open block
  comment, the comment is closed right after it.
\<close>

theorem only_block_flag_crosses_lines:
  assumes "k < length ls"
  shows "cls_of (state_before ls 0 0) = (False, False, False, False)
    \<and> cls_of (state_before ls (Suc k) 0) =
        (in_block_comment (state_before ls k (length (ls ! k))), False, False, False)
    \<and> prev_byte (state_before ls k 0) = 0
    \<and> (in_block_comment (state_before ls k 0) \<and> \<not> has_close (ls ! k)
          \<longrightarrow> in_block_comment (state_before ls k c))
    \<and> (in_block_comment (state_before ls k 0) \<and> k + n \<le> length ls
          \<and> (\<forall>i. k \<le> i \<and> i < k + n \<longrightarrow> \<not> has_close (ls ! i))
          \<longrightarrow> in_block_comment (state_before ls (k + n) 0))
    \<and> (Suc p < length (ls ! k) \<and> ls ! k ! p = ord_bar \<and> ls ! k ! Suc p = ord_hash
          \<and> in_block_comment (state_before ls k (Suc p))
          \<longrightarrow> \<not> in_block_comment (state_before ls k (Suc (Suc p))))"
proof -
  have 1: "cls_of (state_before ls 0 0) = (False, False, False, False)"
    by (simp add: state_before_line_start cls_of_def)
  have 2: "cls_of (state_before ls (Suc k) 0) =
        (in_block_comment (state_before ls k (length (ls ! k))), False, False, False)"
    using block_flag_carried [OF assms]
    by (simp add: cls_of_def) (simp add: state_before_line_start)
  have 3: "prev_byte (state_before ls k 0) = 0"
    by (simp add: state_before_line_start)
  have 4: "in_block_comment (state_before ls k c)"
    if "in_block_comment (state_before ls k 0) \<and> \<not> has_close (ls ! k)"
    using that block_persists_in_line by blast
  have 5: "in_block_comment (state_before ls (k + n) 0)"
    if "in_block_comment (state_before ls k 0) \<and> k + n \<le> length ls
          \<and> (\<forall>i. k \<le> i \<and> i < k + n \<longrightarrow> \<not> has_close (ls ! i))"
    using that block_persists_lines [of ls k n] by blast
  have 6: "\<not> in_block_comment (state_before ls k (Suc (Suc p)))"
    if "Suc p < length (ls ! k) \<and> ls ! k ! p = ord_bar \<and> ls ! k ! Suc p = ord_hash
          \<and> in_block_comment (state_before ls k (Suc p))"
    using that block_closes [of p ls k] by blast
  from 1 2 3 4 5 6 show ?thesis by blast
qed

theorem only_block_flag_crosses_lines_witness:
  "cls_of (state_before [[0x23, 0x7C, 0xE9], [0x3B, 0x22], [0x7C, 0x23, 0xE9]] 1 0) =
     (True, False, False, False)
   \<and> \<not> has_close [0x3B, 0x22]
   \<and> in_block_comment
       (state_before [[0x23, 0x7C, 0xE9], [0x3B, 0x22], [0x7C, 0x23, 0xE9]] 1 2)
   \<and> in_block_comment
       (state_before [[0x23, 0x7C, 0xE9], [0x3B, 0x22], [0x7C, 0x23, 0xE9]] 2 0)
   \<and> \<not> in_block_comment
       (state_before [[0x23, 0x7C, 0xE9], [0x3B, 0x22], [0x7C, 0x23, 0xE9]] 2 2)"
proof -
  let ?L = "[[0x23, 0x7C, 0xE9], [0x3B, 0x22], [0x7C, 0x23, 0xE9]] :: byte list list"
  have e: "in_block_comment (state_before ?L 0 (length (?L ! 0)))"
    by (simp add: state_before_def line_reset_def init_state_def byte_step_def
          ascii_flags_def Let_def)
  have n: "\<not> has_close [0x3B, 0x22 :: byte]" by simp
  have k0: "0 < length ?L" and k1: "1 < length ?L" and k2: "2 < length ?L" by simp_all
  have b1: "in_block_comment (state_before ?L 1 0)"
    using only_block_flag_crosses_lines [OF k0, of 0 0 0] e by (simp add: cls_of_def)
  have c1: "cls_of (state_before ?L 1 0) = (True, False, False, False)"
    using only_block_flag_crosses_lines [OF k0, of 0 0 0] e by simp
  have b12: "in_block_comment (state_before ?L 1 2)"
    using only_block_flag_crosses_lines [OF k1, of 2 0 0] b1 n by (simp add: numeral_2_eq_2)
  have b2: "in_block_comment (state_before ?L 2 0)"
    using only_block_flag_crosses_lines [OF k1, of 0 1 0] b1 n by (simp add: numeral_2_eq_2)
  have b21: "in_block_comment (state_before ?L 2 (Suc 0))"
    by (simp add: state_before_def line_step_def line_reset_def init_state_def byte_step_def
          ascii_flags_def Let_def)
  have "\<not> in_block_comment (state_before ?L 2 (Suc (Suc 0)))"
    using only_block_flag_crosses_lines [OF k2, of 0 0 0] b21 by (simp add: numeral_2_eq_2)
  then have b22: "\<not> in_block_comment (state_before ?L 2 2)"
    by (simp add: numeral_2_eq_2)
  from c1 n b12 b2 b22 show ?thesis by simp
qed

section \<open>Facts about the Scanner\<close>

lemma takeWhile_no_NL: "NL \<notin> set xs \<Longrightarrow> takeWhile (\<lambda>x. x \<noteq> NL) xs = xs"
  by (induction xs) auto

lemma last_seg_snoc:
  "rev (takeWhile (\<lambda>x. x \<noteq> NL) (rev pre @ [a])) =
     (if NL \<in> set pre then rev (takeWhile (\<lambda>x. x \<noteq> NL) (rev pre))
      else if a = NL then pre else a # pre)"
  by (auto simp add: takeWhile_append takeWhile_no_NL)

lemma split_nl_first: "split_nl d ! 0 = takeWhile (\<lambda>x. x \<noteq> NL) d"
proof (induction d)
  case Nil
  show ?case by simp
next
  case (Cons a d)
  then show ?case
    using split_nl_not_Nil [of d] by (cases "split_nl d") auto
qed

lemma count_list_0_iff: "count_list xs x = 0 \<longleftrightarrow> x \<notin> set xs"
  by (induction xs) auto

lemma split_nl_line_of:
  "count_list pre NL < length (split_nl (pre @ rest))
   \<and> split_nl (pre @ rest) ! count_list pre NL =
       rev (takeWhile (\<lambda>x. x \<noteq> NL) (rev pre)) @ takeWhile (\<lambda>x. x \<noteq> NL) rest"
proof (induction pre)
  case Nil
  show ?case using split_nl_not_Nil [of rest] by (simp add: split_nl_first)
next
  case (Cons a pre)
  obtain l ls where sp: "split_nl (pre @ rest) = l # ls"
    using split_nl_not_Nil [of "pre @ rest"] by (cases "split_nl (pre @ rest)") auto
  show ?case
  proof (cases "NL \<in> set pre")
    case True
    then have "count_list pre NL \<noteq> 0" by (simp add: count_list_0_iff)
    then obtain m where m: "count_list pre NL = Suc m" by (cases "count_list pre NL") auto
    show ?thesis using True Cons sp m by (simp add: last_seg_snoc)
  next
    case False
    then have z: "count_list pre NL = 0" by (simp add: count_list_0_iff)
    show ?thesis using False Cons sp z by (simp add: last_seg_snoc takeWhile_no_NL)
  qed
qed

subsection \<open>The position arithmetic of \<open>scan_file\<close>\<close>

lemma rfind_col:
  "int (length xs) - rfind xs NL - 1 = int (length (takeWhile (\<lambda>x. x \<noteq> NL) (rev xs)))"
  by (simp add: rfind_def takeWhile_no_NL)

lemma length_takeWhile_rev_le: "length (takeWhile P (rev xs)) \<le> length xs"
  using length_takeWhile_le [of P "rev xs"] by simp

lemma rfind_line_start:
  "nat (rfind xs NL + 1) = length xs - length (takeWhile (\<lambda>x. x \<noteq> NL) (rev xs))"
  using length_takeWhile_rev_le [of "\<lambda>x. x \<noteq> NL" xs]
  by (auto simp add: rfind_def takeWhile_no_NL nat_diff_distrib')

lemma find_line_end:
  "i \<le> length data \<Longrightarrow>
     (if find_from data NL i = - 1 then length data else nat (find_from data NL i)) =
       i + length (takeWhile (\<lambda>x. x \<noteq> NL) (drop i data))"
  by (auto simp add: find_from_def takeWhile_no_NL nat_add_distrib simp flip: of_nat_add)

lemma drop_last_seg:
  "drop (length xs - length (takeWhile P (rev xs))) xs = rev (takeWhile P (rev xs))"
proof -
  have "rev xs = takeWhile P (rev xs) @ dropWhile P (rev xs)" by simp
  then have "xs = rev (dropWhile P (rev xs)) @ rev (takeWhile P (rev xs))"
    by (metis rev_append rev_rev_ident)
  moreover have "length (rev (dropWhile P (rev xs))) = length xs - length (takeWhile P (rev xs))"
    by (metis length_rev length_append add_diff_cancel_left' takeWhile_dropWhile_id)
  ultimately show ?thesis
    by (metis append_eq_conv_conj)
qed

lemma slice_line:
  assumes "i \<le> length data"
  shows "slice data (length (take i data) - length (takeWhile (\<lambda>x. x \<noteq> NL) (rev (take i data))))
           (i + length (takeWhile (\<lambda>x. x \<noteq> NL) (drop i data))) =
         rev (takeWhile (\<lambda>x. x \<noteq> NL) (rev (take i data))) @ takeWhile (\<lambda>x. x \<noteq> NL) (drop i data)"
proof -
  let ?pre = "take i data" and ?rest = "drop i data"
  let ?tw = "takeWhile (\<lambda>x. x \<noteq> NL) (rev ?pre)"
  let ?tw2 = "takeWhile (\<lambda>x. x \<noteq> NL) ?rest"
  let ?a = "length ?pre - length ?tw"
  have li: "length ?pre = i" using assms by simp
  have le: "length ?tw \<le> i" using length_takeWhile_rev_le [of _ ?pre] li by simp
  have d: "data = ?pre @ ?rest" by simp
  have "drop ?a data = drop ?a ?pre @ ?rest"
    using le li by (subst d, subst drop_append) simp
  then have dr: "drop ?a data = rev ?tw @ ?rest"
    by (simp only: drop_last_seg)
  have "i + length ?tw2 - ?a = length (rev ?tw) + length ?tw2"
    using le li by simp
  then have "slice data ?a (i + length ?tw2) = take (length (rev ?tw) + length ?tw2) (rev ?tw @ ?rest)"
    by (simp only: slice_def dr)
  also have "\<dots> = rev ?tw @ take (length ?tw2) ?rest" by simp
  also have "take (length ?tw2) ?rest = ?tw2"
    by (metis takeWhile_eq_take)
  finally show ?thesis .
qed

lemma hit_at_fields:
  assumes "i < length data"
  shows "h_line (hit_at data i) = Suc (count_list (take i data) NL)"
    and "h_col (hit_at data i) = int (length (takeWhile (\<lambda>x. x \<noteq> NL) (rev (take i data))))"
    and "h_byte (hit_at data i) = data ! i"
    and "h_hex (hit_at data i) = hex_byte (data ! i)"
    and "h_char (hit_at data i) = chr_iso (data ! i)"
    and "h_context (hit_at data i) =
           strip (decode_iso (rev (takeWhile (\<lambda>x. x \<noteq> NL) (rev (take i data)))
                              @ takeWhile (\<lambda>x. x \<noteq> NL) (drop i data)))"
proof -
  have li: "length (take i data) = i" using assms by simp
  show "h_line (hit_at data i) = Suc (count_list (take i data) NL)"
    by (simp add: hit_at_def Let_def)
  show "h_col (hit_at data i) = int (length (takeWhile (\<lambda>x. x \<noteq> NL) (rev (take i data))))"
    using rfind_col [of "take i data"] li by (simp add: hit_at_def Let_def)
  show "h_byte (hit_at data i) = data ! i" "h_hex (hit_at data i) = hex_byte (data ! i)"
    "h_char (hit_at data i) = chr_iso (data ! i)"
    by (simp_all add: hit_at_def Let_def)
  have "h_context (hit_at data i) =
          strip (decode_iso (slice data (nat (rfind (take i data) NL + 1))
            (if find_from data NL i = - 1 then length data else nat (find_from data NL i))))"
    by (simp add: hit_at_def Let_def)
  also have "\<dots> = strip (decode_iso (slice data
      (length (take i data) - length (takeWhile (\<lambda>x. x \<noteq> NL) (rev (take i data))))
      (i + length (takeWhile (\<lambda>x. x \<noteq> NL) (drop i data)))))"
    using assms by (simp only: rfind_line_start find_line_end [of i data] less_imp_le)
  finally show "h_context (hit_at data i) =
           strip (decode_iso (rev (takeWhile (\<lambda>x. x \<noteq> NL) (rev (take i data)))
                              @ takeWhile (\<lambda>x. x \<noteq> NL) (drop i data)))"
    using assms by (simp only: slice_line less_imp_le)
qed

lemma line_of_index:
  assumes "i < length data" and "data ! i \<noteq> NL"
  shows "count_list (take i data) NL < length (split_nl data)"
    and "split_nl data ! count_list (take i data) NL =
           rev (takeWhile (\<lambda>x. x \<noteq> NL) (rev (take i data)))
           @ takeWhile (\<lambda>x. x \<noteq> NL) (drop i data)"
    and "length (takeWhile (\<lambda>x. x \<noteq> NL) (rev (take i data))) <
           length (split_nl data ! count_list (take i data) NL)"
    and "split_nl data ! count_list (take i data) NL
           ! length (takeWhile (\<lambda>x. x \<noteq> NL) (rev (take i data))) = data ! i"
proof -
  let ?seg = "rev (takeWhile (\<lambda>x. x \<noteq> NL) (rev (take i data)))"
  have s: "count_list (take i data) NL < length (split_nl (take i data @ drop i data))
    \<and> split_nl (take i data @ drop i data) ! count_list (take i data) NL =
       ?seg @ takeWhile (\<lambda>x. x \<noteq> NL) (drop i data)"
    by (rule split_nl_line_of)
  then show 1: "count_list (take i data) NL < length (split_nl data)"
    and 2: "split_nl data ! count_list (take i data) NL =
           ?seg @ takeWhile (\<lambda>x. x \<noteq> NL) (drop i data)"
    by simp_all
  have "drop i data = data ! i # drop (Suc i) data"
    using assms(1) by (simp add: Cons_nth_drop_Suc)
  then have t: "takeWhile (\<lambda>x. x \<noteq> NL) (drop i data) =
      data ! i # takeWhile (\<lambda>x. x \<noteq> NL) (drop (Suc i) data)"
    using assms(2) by simp
  show "length (takeWhile (\<lambda>x. x \<noteq> NL) (rev (take i data))) <
           length (split_nl data ! count_list (take i data) NL)"
    by (simp only: 2 t) simp
  have "(?seg @ data ! i # takeWhile (\<lambda>x. x \<noteq> NL) (drop (Suc i) data)) ! length ?seg = data ! i"
    by (rule nth_append_length)
  then show "split_nl data ! count_list (take i data) NL
           ! length (takeWhile (\<lambda>x. x \<noteq> NL) (rev (take i data))) = data ! i"
    by (simp only: 2 t length_rev)
qed

lemma high_not_NL: "(b :: byte) > 127 \<Longrightarrow> b \<noteq> NL"
  by auto

lemma scan_file_bytes: "map h_byte (scan_file data) = filter (\<lambda>b. b > 127) data"
proof -
  have "map h_byte (scan_file data) =
        map (\<lambda>i. data ! i) (filter (\<lambda>i. data ! i > 127) [0..<length data])"
    by (simp add: scan_file_def hit_at_fields)
  also have "\<dots> = filter (\<lambda>b. b > 127) (map (\<lambda>i. data ! i) [0..<length data])"
    by (simp add: filter_map comp_def)
  also have "map (\<lambda>i. data ! i) [0..<length data] = data" by (rule map_nth)
  finally show ?thesis .
qed

lemma scan_file_hit:
  assumes "h \<in> set (scan_file data)"
  shows "1 \<le> h_line h \<and> h_line h \<le> length (split_nl data)
        \<and> 0 \<le> h_col h \<and> nat (h_col h) < length (split_nl data ! (h_line h - 1))
        \<and> split_nl data ! (h_line h - 1) ! nat (h_col h) = h_byte h
        \<and> h_byte h > 127
        \<and> h_char h = chr_iso (h_byte h)
        \<and> h_hex h = hex_byte (h_byte h)
        \<and> h_context h = strip (decode_iso (split_nl data ! (h_line h - 1)))"
proof -
  from assms obtain i where i: "i < length data" "data ! i > 127" and h: "h = hit_at data i"
    by (auto simp add: scan_file_def)
  have nn: "data ! i \<noteq> NL" using i(2) by (rule high_not_NL)
  note f = hit_at_fields [OF i(1)]
  note l = line_of_index [OF i(1) nn]
  show ?thesis
    unfolding h using i(2) l(1,3,4)
    by (simp add: f l(2))
qed

lemma scan_file_long_line:
  "map h_context (scan_file (replicate n 0x61 @ [0xE9])) = [replicate n 97 @ [233]]"
proof -
  let ?d = "replicate n 0x61 @ [0xE9] :: byte list"
  have "filter (\<lambda>i. ?d ! i > 127) [0..<n] = []"
    by (simp add: filter_empty_conv nth_append)
  moreover have "?d ! n = 0xE9"
    using nth_append_length [of "replicate n 0x61" "0xE9 :: byte" "[]"] by simp
  ultimately have idx: "filter (\<lambda>i. ?d ! i > 127) [0..<length ?d] = [n]"
    by simp
  have nl: "NL \<notin> set ?d" by simp
  have "h_context (hit_at ?d n) =
          strip (decode_iso (rev (takeWhile (\<lambda>x. x \<noteq> NL) (rev (take n ?d)))
                              @ takeWhile (\<lambda>x. x \<noteq> NL) (drop n ?d)))"
    by (rule hit_at_fields) simp
  also have "\<dots> = strip (decode_iso ?d)"
    by (simp add: takeWhile_no_NL)
  also have "decode_iso ?d = replicate n 97 @ [233]"
    by (simp add: decode_iso_def chr_iso_def)
  also have "strip (replicate n 97 @ [233]) = replicate n 97 @ [233]"
    by (cases n) (simp_all add: strip_def py_isspace_def)
  finally have "h_context (hit_at ?d n) = replicate n 97 @ [233]" .
  then show ?thesis
    by (simp only: scan_file_def idx) simp
qed

subsection \<open>The hits in file order\<close>

lemma upt_add_Suc: "[m..<m + Suc n] = m # [Suc m..<Suc m + n]"
proof -
  have "m < m + Suc n" by simp
  then have "[m..<m + Suc n] = m # [Suc m..<m + Suc n]" by (rule upt_conv_Cons)
  then show ?thesis by simp
qed

lemma positions_of_indices:
  "map (\<lambda>i. (Suc (count_list (take i (pre @ d)) NL),
              int (length (takeWhile (\<lambda>x. x \<noteq> NL) (rev (take i (pre @ d))))),
              (pre @ d) ! i))
       (filter (\<lambda>i. (pre @ d) ! i > 127) [length pre..<length pre + length d]) =
     filter (\<lambda>(l, c, b). b > 127)
       (positions (Suc (count_list pre NL))
                  (length (takeWhile (\<lambda>x. x \<noteq> NL) (rev pre))) d)"
proof (induction d arbitrary: pre)
  case Nil
  show ?case by simp
next
  case (Cons b d)
  define D where "D = pre @ b # d"
  define f where "f = (\<lambda>i. (Suc (count_list (take i D) NL),
              int (length (takeWhile (\<lambda>x. x \<noteq> NL) (rev (take i D)))), D ! i))"
  define Q where "Q = (\<lambda>i. D ! i > 127)"
  define n where "n = length pre"
  define R where "R = filter (\<lambda>(l, c, b). b > 127)
       (positions (Suc (count_list (pre @ [b]) NL))
                  (length (takeWhile (\<lambda>x. x \<noteq> NL) (rev (pre @ [b])))) d)"
  have IH: "map f (filter Q [Suc n..<Suc n + length d]) = R"
    using Cons.IH [of "pre @ [b]"] by (simp add: D_def f_def Q_def n_def R_def)
  have fn: "f n = (Suc (count_list pre NL),
                   int (length (takeWhile (\<lambda>x. x \<noteq> NL) (rev pre))), b)"
    by (simp add: f_def D_def n_def)
  have Qn: "Q n \<longleftrightarrow> b > 127" by (simp add: Q_def D_def n_def)
  have idx: "[n..<n + length (b # d)] = n # [Suc n..<Suc n + length d]"
    using upt_add_Suc [of n "length d"] by simp
  have L: "map f (filter Q [n..<n + length (b # d)]) =
           (if b > 127 then [f n] else []) @ map f (filter Q [Suc n..<Suc n + length d])"
    by (simp only: idx filter.simps Qn) simp
  have Rr: "filter (\<lambda>(l, c, b). b > 127)
       (positions (Suc (count_list pre NL))
                  (length (takeWhile (\<lambda>x. x \<noteq> NL) (rev pre))) (b # d)) =
       (if b > 127 then [(Suc (count_list pre NL),
                   int (length (takeWhile (\<lambda>x. x \<noteq> NL) (rev pre))), b)] else []) @ R"
    by (cases "b = NL") (simp_all add: R_def)
  have "map (\<lambda>i. (Suc (count_list (take i (pre @ b # d)) NL),
              int (length (takeWhile (\<lambda>x. x \<noteq> NL) (rev (take i (pre @ b # d))))),
              (pre @ b # d) ! i))
       (filter (\<lambda>i. (pre @ b # d) ! i > 127) [length pre..<length pre + length (b # d)]) =
        map f (filter Q [n..<n + length (b # d)])"
    by (simp only: f_def Q_def D_def n_def)
  also have "\<dots> = (if b > 127 then [f n] else []) @ R"
    by (simp only: L IH)
  also have "\<dots> = filter (\<lambda>(l, c, b). b > 127)
       (positions (Suc (count_list pre NL))
                  (length (takeWhile (\<lambda>x. x \<noteq> NL) (rev pre))) (b # d))"
    by (simp only: Rr fn)
  finally show ?case .
qed

lemma scan_file_positions_list:
  "map (\<lambda>h. (h_line h, h_col h, h_byte h)) (scan_file data) =
     filter (\<lambda>(l, c, b). b > 127) (positions 1 0 data)"
proof -
  have "map (\<lambda>h. (h_line h, h_col h, h_byte h)) (scan_file data) =
        map (\<lambda>i. (h_line (hit_at data i), h_col (hit_at data i), h_byte (hit_at data i)))
            (filter (\<lambda>i. data ! i > 127) [0..<length data])"
    by (simp add: scan_file_def comp_def)
  also have "\<dots> =
        map (\<lambda>i. (Suc (count_list (take i data) NL),
              int (length (takeWhile (\<lambda>x. x \<noteq> NL) (rev (take i data)))), data ! i))
            (filter (\<lambda>i. data ! i > 127) [0..<length data])"
    by (rule map_cong) (simp_all add: hit_at_fields)
  also have "\<dots> = filter (\<lambda>(l, c, b). b > 127) (positions 1 0 data)"
    using positions_of_indices [of "[]" data] by simp
  finally show ?thesis .
qed

lemma scan_file_by_position:
  "scan_file data =
     map (\<lambda>(l, c, b). \<lparr>h_line = l, h_col = c, h_byte = b, h_hex = hex_byte b,
                         h_char = chr_iso b,
                         h_context = strip (decode_iso (split_nl data ! (l - 1)))\<rparr>)
         (filter (\<lambda>(l, c, b). b > 127) (positions 1 0 data))"
proof -
  have each: "h = (case (h_line h, h_col h, h_byte h) of (l, c, b) \<Rightarrow>
        \<lparr>h_line = l, h_col = c, h_byte = b, h_hex = hex_byte b, h_char = chr_iso b,
         h_context = strip (decode_iso (split_nl data ! (l - 1)))\<rparr>)"
    if "h \<in> set (scan_file data)" for h
    using scan_file_hit [OF that] by simp
  have "scan_file data = map (\<lambda>h. h) (scan_file data)" by simp
  also have "\<dots> = map (\<lambda>h. case (h_line h, h_col h, h_byte h) of (l, c, b) \<Rightarrow>
        \<lparr>h_line = l, h_col = c, h_byte = b, h_hex = hex_byte b, h_char = chr_iso b,
         h_context = strip (decode_iso (split_nl data ! (l - 1)))\<rparr>) (scan_file data)"
    by (rule map_cong) (simp_all only: each [symmetric])
  also have "\<dots> = map (\<lambda>(l, c, b).
        \<lparr>h_line = l, h_col = c, h_byte = b, h_hex = hex_byte b, h_char = chr_iso b,
         h_context = strip (decode_iso (split_nl data ! (l - 1)))\<rparr>)
        (map (\<lambda>h. (h_line h, h_col h, h_byte h)) (scan_file data))"
    by (simp add: comp_def)
  finally show ?thesis by (simp only: scan_file_positions_list)
qed

subsection \<open>The hits of the Scanner\<close>

text \<open>
  C9 as stated fails on the bound: \<open>scan_file\<close> keeps the whole stripped line as context
  and never cuts it. For a line of 200 letters followed by the byte 0xE9, the context of
  the hit has 201 characters.
\<close>

theorem scan_context_not_cut:
  "length (h_context (hd (scan_file (replicate 200 0x61 @ [0xE9])))) = 201"
proof -
  have "map h_context (scan_file (replicate 200 0x61 @ [0xE9])) = [replicate 200 97 @ [233]]"
    by (rule scan_file_long_line)
  then have "h_context (hd (scan_file (replicate 200 0x61 @ [0xE9]))) = replicate 200 97 @ [233]"
    by (cases "scan_file (replicate 200 0x61 @ [0xE9])") simp_all
  then show ?thesis by simp
qed

text \<open>
  C9, amended. The hits of \<open>scan_file\<close> are the bytes above 127 in file order, one hit
  each: walking the file with a line counter started at 1 and a column counter started
  at 0, the hit of a byte carries the line and the column the walk has at that byte,
  the byte, its two-digit hexadecimal form, its ISO-8859-1 character, and as context
  the whole line of that number, decoded as ISO-8859-1 and stripped of leading and
  trailing whitespace. So the line number is 1-based, the column is the 0-based index of
  the byte in its line, and the line holds the byte at that column. The context is not
  cut: a line of \<open>n\<close> letters followed by one byte above 127 gives a context of
  \<open>n + 1\<close> characters.
\<close>

theorem scan_file_hits:
  "scan_file data =
     map (\<lambda>(l, c, b). \<lparr>h_line = l, h_col = c, h_byte = b, h_hex = hex_byte b,
                         h_char = chr_iso b,
                         h_context = strip (decode_iso (split_nl data ! (l - 1)))\<rparr>)
         (filter (\<lambda>(l, c, b). b > 127) (positions 1 0 data))
   \<and> map h_byte (scan_file data) = filter (\<lambda>b. b > 127) data
   \<and> (\<forall>h \<in> set (scan_file data).
        1 \<le> h_line h \<and> h_line h \<le> length (split_nl data)
        \<and> 0 \<le> h_col h \<and> nat (h_col h) < length (split_nl data ! (h_line h - 1))
        \<and> split_nl data ! (h_line h - 1) ! nat (h_col h) = h_byte h
        \<and> h_byte h > 127
        \<and> h_char h = chr_iso (h_byte h)
        \<and> h_hex h = hex_byte (h_byte h)
        \<and> h_context h = strip (decode_iso (split_nl data ! (h_line h - 1))))
   \<and> map (\<lambda>h. length (h_context h)) (scan_file (replicate n 0x61 @ [0xE9])) = [Suc n]"
proof -
  have "map (\<lambda>h. length (h_context h)) (scan_file (replicate n 0x61 @ [0xE9])) =
        map length (map h_context (scan_file (replicate n 0x61 @ [0xE9])))"
    by simp
  also have "\<dots> = [Suc n]"
    by (simp only: scan_file_long_line) simp
  finally show ?thesis
    using scan_file_by_position [of data] scan_file_bytes [of data] scan_file_hit [of _ data]
    by blast
qed

theorem scan_file_hits_witness:
  "scan_file [0xE9, 0x0A, 0x20, 0xE9, 0x62, 0x20] =
     [\<lparr>h_line = 1, h_col = 0, h_byte = 0xE9, h_hex = ''0xe9'', h_char = 233,
       h_context = [233]\<rparr>,
      \<lparr>h_line = 2, h_col = 1, h_byte = 0xE9, h_hex = ''0xe9'', h_char = 233,
       h_context = [233, 98]\<rparr>]
   \<and> split_nl [0xE9, 0x0A, 0x20, 0xE9, 0x62, 0x20] ! (2 - 1) ! nat 1 = 0xE9
   \<and> map h_byte (scan_file [0xE9, 0x0A, 0x20, 0xE9, 0x62, 0x20]) = [0xE9, 0xE9]"
proof -
  have p: "filter (\<lambda>(l, c, b). b > 127) (positions 1 0 [0xE9, 0x0A, 0x20, 0xE9, 0x62, 0x20]) =
           [(1, 0, 0xE9), (2, 1, 0xE9)]"
    by simp
  have c: "strip (decode_iso (split_nl [0xE9, 0x0A, 0x20, 0xE9, 0x62, 0x20] ! 0)) = [233]"
    "strip (decode_iso (split_nl [0xE9, 0x0A, 0x20, 0xE9, 0x62, 0x20] ! 1)) = [233, 98]"
    by (simp_all add: decode_iso_def chr_iso_def strip_def py_isspace_def)
  have e: "scan_file [0xE9, 0x0A, 0x20, 0xE9, 0x62, 0x20] =
     [\<lparr>h_line = 1, h_col = 0, h_byte = 0xE9, h_hex = ''0xe9'', h_char = 233,
       h_context = [233]\<rparr>,
      \<lparr>h_line = 2, h_col = 1, h_byte = 0xE9, h_hex = ''0xe9'', h_char = 233,
       h_context = [233, 98]\<rparr>]"
    using scan_file_hits [of "[0xE9, 0x0A, 0x20, 0xE9, 0x62, 0x20]" 0] c
    by (simp only: p) (simp add: hex_byte_def hex_digit_def chr_iso_def)
  show ?thesis
    using scan_file_hits [of "[0xE9, 0x0A, 0x20, 0xE9, 0x62, 0x20]" 0]
    by (simp add: e)
qed

section \<open>Scanner and Converter on the same file\<close>

subsection \<open>Positions in the file and positions in the lines\<close>

lemma length_takeWhile_snoc:
  "length (takeWhile (\<lambda>x. x \<noteq> NL) (rev t @ [a])) =
     (if NL \<in> set t then length (takeWhile (\<lambda>x. x \<noteq> NL) (rev t))
      else if a = NL then length t else Suc (length t))"
  by (auto simp add: takeWhile_append takeWhile_no_NL)

lemma index_of_position:
  "k < length (split_nl d) \<Longrightarrow> c < length (split_nl d ! k) \<Longrightarrow>
     \<exists>i < length d. count_list (take i d) NL = k
         \<and> length (takeWhile (\<lambda>x. x \<noteq> NL) (rev (take i d))) = c
         \<and> d ! i = split_nl d ! k ! c"
proof (induction d arbitrary: k c)
  case Nil
  then show ?case by simp
next
  case (Cons a d)
  obtain l ls' where sp: "split_nl d = l # ls'"
    using split_nl_not_Nil [of d] by (cases "split_nl d") auto
  show ?case
  proof (cases "a = NL")
    case True
    with Cons.prems obtain k' where k: "k = Suc k'"
      by (cases k) auto
    with True Cons.prems have "k' < length (split_nl d)" "c < length (split_nl d ! k')"
      by simp_all
    then obtain i where i: "i < length d" "count_list (take i d) NL = k'"
        "length (takeWhile (\<lambda>x. x \<noteq> NL) (rev (take i d))) = c"
        "d ! i = split_nl d ! k' ! c"
      using Cons.IH by blast
    have "length (takeWhile (\<lambda>x. x \<noteq> NL) (rev (take i d) @ [a])) = c"
      using True i(3) by (auto simp add: length_takeWhile_snoc takeWhile_no_NL)
    then show ?thesis
      using True k i by (intro exI [of _ "Suc i"]) simp
  next
    case False
    show ?thesis
    proof (cases k)
      case 0
      show ?thesis
      proof (cases c)
        case c0: 0
        show ?thesis
          using False 0 c0 sp by (intro exI [of _ 0]) simp
      next
        case (Suc c')
        with 0 False sp Cons.prems have "0 < length (split_nl d)" "c' < length (split_nl d ! 0)"
          by simp_all
        then obtain i where i: "i < length d" "count_list (take i d) NL = 0"
            "length (takeWhile (\<lambda>x. x \<noteq> NL) (rev (take i d))) = c'"
            "d ! i = split_nl d ! 0 ! c'"
          using Cons.IH by blast
        from i(2) have nin: "NL \<notin> set (take i d)" by (simp add: count_list_0_iff)
        then have "c' = length (take i d)"
          using i(3) by (simp add: takeWhile_no_NL)
        then have "length (takeWhile (\<lambda>x. x \<noteq> NL) (rev (take i d) @ [a])) = c"
          using False nin Suc by (simp add: length_takeWhile_snoc)
        then show ?thesis
          using False 0 Suc sp i by (intro exI [of _ "Suc i"]) simp
      qed
    next
      case (Suc k')
      with False sp Cons.prems have "Suc k' < length (split_nl d)"
          "c < length (split_nl d ! Suc k')"
        by simp_all
      then obtain i where i: "i < length d" "count_list (take i d) NL = Suc k'"
          "length (takeWhile (\<lambda>x. x \<noteq> NL) (rev (take i d))) = c"
          "d ! i = split_nl d ! Suc k' ! c"
        using Cons.IH by blast
      from i(2) have "NL \<in> set (take i d)"
        using count_list_0_iff [of "take i d" NL] by simp
      then have "length (takeWhile (\<lambda>x. x \<noteq> NL) (rev (take i d) @ [a])) = c"
        using i(3) by (simp add: length_takeWhile_snoc)
      then show ?thesis
        using False Suc sp i by (intro exI [of _ "Suc i"]) simp
    qed
  qed
qed

lemma set_concat_if2:
  "set (concat (map (\<lambda>k. concat (map (\<lambda>j. if P k j then [f k j] else []) [0..<m k])) [0..<n])) =
     {f k j | k j. k < n \<and> j < m k \<and> P k j}"
  by auto (blast, force)

lemma scan_file_positions:
  "(\<lambda>h. (h_line h, h_col h, h_hex h)) ` set (scan_file data) =
     {(Suc k, int c, hex_byte (split_nl data ! k ! c)) | k c.
        k < length (split_nl data) \<and> c < length (split_nl data ! k)
        \<and> split_nl data ! k ! c > 127}"
  (is "?H = ?R")
proof (rule set_eqI, rule iffI)
  fix x
  assume "x \<in> ?H"
  then obtain i where i: "i < length data" "data ! i > 127"
    and x: "x = (h_line (hit_at data i), h_col (hit_at data i), h_hex (hit_at data i))"
    by (auto simp add: scan_file_def)
  have nn: "data ! i \<noteq> NL" using i(2) by (rule high_not_NL)
  note f = hit_at_fields [OF i(1)]
  note l = line_of_index [OF i(1) nn]
  let ?k = "count_list (take i data) NL"
  let ?c = "length (takeWhile (\<lambda>x. x \<noteq> NL) (rev (take i data)))"
  have "x = (Suc ?k, int ?c, hex_byte (split_nl data ! ?k ! ?c))"
    by (simp only: x f l(4))
  moreover have "split_nl data ! ?k ! ?c > 127" using i(2) by (simp only: l(4))
  ultimately show "x \<in> ?R" using l(1) l(3) by blast
next
  fix x
  assume "x \<in> ?R"
  then obtain k c where kc: "k < length (split_nl data)" "c < length (split_nl data ! k)"
      "split_nl data ! k ! c > 127"
    and x: "x = (Suc k, int c, hex_byte (split_nl data ! k ! c))"
    by blast
  from index_of_position [OF kc(1,2)]
  obtain i where i: "i < length data" "count_list (take i data) NL = k"
      "length (takeWhile (\<lambda>x. x \<noteq> NL) (rev (take i data))) = c"
      "data ! i = split_nl data ! k ! c"
    by blast
  note f = hit_at_fields [OF i(1)]
  have "x = (h_line (hit_at data i), h_col (hit_at data i), h_hex (hit_at data i))"
    by (simp only: x f i(2,3,4))
  moreover have "hit_at data i \<in> set (scan_file data)"
    using i(1) i(4) kc(3) by (simp add: scan_file_def)
  ultimately show "x \<in> ?H" by (rule image_eqI)
qed

lemma image_Collect2: "g ` {f k j | k j. Q k j} = {g (f k j) | k j. Q k j}"
  by blast

lemma converter_positions:
  "(\<lambda>r. (c_line r, int (c_col r), c_byte r)) ` set (changes (scan_lines 1 ls init_state))
   \<union> (\<lambda>w. (w_line w, int (w_col w), w_byte w)) ` set (warnings (scan_lines 1 ls init_state)) =
     {(Suc k, int (Suc c), hex_byte (ls ! k ! c)) | k c.
        k < length ls \<and> c < length (ls ! k) \<and> ls ! k ! c > 127}"
  (is "?C \<union> ?W = ?R")
proof -
  have c: "?C = {(Suc k, int (Suc c), hex_byte (ls ! k ! c)) | k c.
        k < length ls \<and> c < length (ls ! k)
        \<and> (ls ! k ! c > 127 \<and> in_comment (state_before ls k c))}"
    by (simp only: changes_scan_lines set_concat_if2 image_Collect2) simp
  have w: "?W = {(Suc k, int (Suc c), hex_byte (ls ! k ! c)) | k c.
        k < length ls \<and> c < length (ls ! k)
        \<and> (ls ! k ! c > 127 \<and> \<not> in_comment (state_before ls k c))}"
    by (simp only: warnings_scan_lines set_concat_if2 image_Collect2) simp
  show ?thesis
    by (simp only: c w) blast
qed

text \<open>
  C10. For a file the Converter processes, the Scanner's hits and the Converter's
  changes and warnings name the same bytes with the same line numbers, and the column
  the Converter reports is the Scanner's column plus one: the byte at 0-based index
  \<open>c\<close> of line \<open>k + 1\<close> has a hit with column \<open>c\<close> and a change or a warning with
  column \<open>c + 1\<close>. There are as many hits as changes and warnings together.
\<close>

theorem column_conventions:
  assumes "has_non_ascii data" and "\<not> is_valid_utf8 data"
  shows "(\<lambda>h. (h_line h, h_col h + 1, h_hex h)) ` set (scan_file data) =
           (\<lambda>r. (c_line r, int (c_col r), c_byte r))
              ` set (r_changes (fst (process_file data dry_run)))
           \<union> (\<lambda>w. (w_line w, int (w_col w), w_byte w))
              ` set (r_warnings (fst (process_file data dry_run)))
    \<and> length (scan_file data) =
        length (r_changes (fst (process_file data dry_run)))
        + length (r_warnings (fst (process_file data dry_run)))
    \<and> (\<forall>k c. k < length (split_nl data) \<and> c < length (split_nl data ! k)
              \<and> split_nl data ! k ! c > 127 \<longrightarrow>
          (\<exists>h \<in> set (scan_file data). h_line h = Suc k \<and> h_col h = int c
              \<and> h_hex h = hex_byte (split_nl data ! k ! c))
          \<and> ((\<exists>r \<in> set (r_changes (fst (process_file data dry_run))).
                  c_line r = Suc k \<and> c_col r = c + 1
                  \<and> c_byte r = hex_byte (split_nl data ! k ! c))
             \<or> (\<exists>w \<in> set (r_warnings (fst (process_file data dry_run))).
                  w_line w = Suc k \<and> w_col w = c + 1
                  \<and> w_byte w = hex_byte (split_nl data ! k ! c))))"
proof -
  let ?ls = "split_nl data"
  let ?S = "scan_lines 1 ?ls init_state"
  let ?H = "(\<lambda>h. (h_line h, h_col h, h_hex h)) ` set (scan_file data)"
  let ?C = "(\<lambda>r. (c_line r, int (c_col r), c_byte r)) ` set (changes ?S)"
  let ?W = "(\<lambda>w. (w_line w, int (w_col w), w_byte w)) ` set (warnings ?S)"
  have rc: "r_changes (fst (process_file data dry_run)) = changes ?S"
    and rw: "r_warnings (fst (process_file data dry_run)) = warnings ?S"
    using assms by (simp_all add: process_file_def Let_def)
  have H: "?H = {(Suc k, int c, hex_byte (?ls ! k ! c)) | k c.
        k < length ?ls \<and> c < length (?ls ! k) \<and> ?ls ! k ! c > 127}"
    by (rule scan_file_positions)
  have CW: "?C \<union> ?W = {(Suc k, int (Suc c), hex_byte (?ls ! k ! c)) | k c.
        k < length ?ls \<and> c < length (?ls ! k) \<and> ?ls ! k ! c > 127}"
    by (rule converter_positions)
  have "(\<lambda>h. (h_line h, h_col h + 1, h_hex h)) ` set (scan_file data) =
        (\<lambda>(l, c, x). (l, c + 1, x)) ` ?H"
    by (simp add: image_image)
  also have "\<dots> = {(Suc k, int (Suc c), hex_byte (?ls ! k ! c)) | k c.
        k < length ?ls \<and> c < length (?ls ! k) \<and> ?ls ! k ! c > 127}"
    by (simp only: H image_Collect2) (simp add: add.commute)
  finally have 1: "(\<lambda>h. (h_line h, h_col h + 1, h_hex h)) ` set (scan_file data) = ?C \<union> ?W"
    by (simp only: CW)
  have "length (scan_file data) = length (map h_byte (scan_file data))" by simp
  also have "\<dots> = length (filter (\<lambda>b. b > 127) data)"
    by (simp only: scan_file_bytes)
  finally have 2: "length (scan_file data) = length (changes ?S) + length (warnings ?S)"
    by (simp only: count_records)
  have 3: "(\<exists>h \<in> set (scan_file data). h_line h = Suc k \<and> h_col h = int c
              \<and> h_hex h = hex_byte (?ls ! k ! c))
          \<and> ((\<exists>r \<in> set (changes ?S). c_line r = Suc k \<and> c_col r = c + 1
                  \<and> c_byte r = hex_byte (?ls ! k ! c))
             \<or> (\<exists>w \<in> set (warnings ?S). w_line w = Suc k \<and> w_col w = c + 1
                  \<and> w_byte w = hex_byte (?ls ! k ! c)))"
    if kc: "k < length ?ls \<and> c < length (?ls ! k) \<and> ?ls ! k ! c > 127" for k c
  proof
    from kc have "(Suc k, int c, hex_byte (?ls ! k ! c)) \<in> ?H"
      by (simp only: H) blast
    then show "\<exists>h \<in> set (scan_file data). h_line h = Suc k \<and> h_col h = int c
              \<and> h_hex h = hex_byte (?ls ! k ! c)"
      by auto
  next
    from kc have "(Suc k, int (Suc c), hex_byte (?ls ! k ! c)) \<in> ?C \<union> ?W"
      by (simp only: CW) blast
    then show "(\<exists>r \<in> set (changes ?S). c_line r = Suc k \<and> c_col r = c + 1
                  \<and> c_byte r = hex_byte (?ls ! k ! c))
             \<or> (\<exists>w \<in> set (warnings ?S). w_line w = Suc k \<and> w_col w = c + 1
                  \<and> w_byte w = hex_byte (?ls ! k ! c))"
      by auto
  qed
  from 1 2 3 show ?thesis
    by (simp only: rc rw) blast
qed

theorem column_conventions_witness:
  "has_non_ascii [0x22, 0xE9, 0x22, 0x20, 0x3B, 0x20, 0xE9]
   \<and> \<not> is_valid_utf8 [0x22, 0xE9, 0x22, 0x20, 0x3B, 0x20, 0xE9]
   \<and> map h_col (scan_file [0x22, 0xE9, 0x22, 0x20, 0x3B, 0x20, 0xE9]) = [1, 6]
   \<and> (\<lambda>h. (h_line h, h_col h + 1, h_hex h))
        ` set (scan_file [0x22, 0xE9, 0x22, 0x20, 0x3B, 0x20, 0xE9]) =
       {(1, 2, ''0xe9''), (1, 7, ''0xe9'')}
   \<and> length (scan_file [0x22, 0xE9, 0x22, 0x20, 0x3B, 0x20, 0xE9]) = 2"
proof -
  let ?d = "[0x22, 0xE9, 0x22, 0x20, 0x3B, 0x20, 0xE9] :: byte list"
  have h: "has_non_ascii ?d" by (simp add: has_non_ascii_def)
  have v: "\<not> is_valid_utf8 ?d"
    by (simp add: is_valid_utf8_def in_range_def second_lo_def second_hi_def)
  have p: "fst (process_file ?d False) =
      \<lparr>r_changes = [\<lparr>c_line = 1, c_col = 7, c_byte = ''0xe9'', c_char = 233\<rparr>],
       r_warnings = [\<lparr>w_line = 1, w_col = 2, w_byte = ''0xe9'', w_char = 233,
                      w_context = [34, 233, 34, 32, 59, 32, 233],
                      w_reason = ''non-ASCII in code (not in comment)''\<rparr>],
       r_modified = True, r_skipped = None\<rparr>"
    by (simp add: process_file_def has_non_ascii_def is_valid_utf8_def in_range_def
          second_lo_def second_hi_def line_step_def line_reset_def init_state_def
          byte_step_def ascii_flags_def Let_def encode_utf8_def chr_iso_def hex_byte_def
          hex_digit_def warn_context_def decode_iso_def strip_def py_isspace_def)
  have s: "map h_col (scan_file ?d) = [1, 6]"
    by (simp add: scan_file_def hit_at_def rfind_def Let_def upt_rec)
  show ?thesis
    using column_conventions [OF h v, of False] h v s
    by (simp add: p)
qed

section \<open>The second run of the Converter\<close>

subsection \<open>A file converted without warnings is valid UTF-8\<close>

lemma decode_encoded_high:
  assumes "(b::byte) > 127"
  shows "decode_utf8 (encode_utf8 (chr_iso b) @ r) = map_option ((#) (chr_iso b)) (decode_utf8 r)"
proof -
  let ?n = "unat b"
  from assms have n: "128 \<le> ?n" "?n < 256" using hi_unat by auto
  let ?b0 = "of_nat (192 + ?n div 64) :: byte"
  let ?b1 = "of_nat (128 + ?n mod 64) :: byte"
  have d: "2 \<le> ?n div 64 \<and> ?n div 64 < 4" using n by (rule div64)
  have "192 + ?n div 64 < 256" using d by linarith
  then have u0: "unat ?b0 = 192 + ?n div 64" by (rule unat_small)
  have "128 + ?n mod 64 < 256" by simp
  then have u1: "unat ?b1 = 128 + ?n mod 64" by (rule unat_small)
  have r0: "\<not> ?b0 < 0x80" "\<not> ?b0 < 0xC2" "?b0 < 0xE0"
    using d by (simp_all only: word_less_nat_alt u0) simp_all
  have r1: "in_range 0x80 0xBF ?b1"
    by (simp only: in_range_def word_le_nat_alt u1) simp
  have e: "encode_utf8 (chr_iso b) @ r = ?b0 # ?b1 # r"
    by (simp only: enc_hi [OF assms] append_Cons append_Nil)
  have v: "(unat ?b0 - 0xC0) * 64 + cont_bits ?b1 = chr_iso b"
    by (simp only: u0 u1 cont_bits_def chr_iso_def) simp
  have "decode_utf8 (?b0 # ?b1 # r) =
          map_option ((#) ((unat ?b0 - 0xC0) * 64 + cont_bits ?b1)) (decode_utf8 r)"
    using r0 r1 by (rule decode2)
  then show ?thesis
    by (simp only: e v)
qed

lemma encode_low: "(b::byte) \<le> 127 \<Longrightarrow> encode_utf8 (chr_iso b) = [b]"
proof -
  assume "b \<le> 127"
  then have "unat b < 128" by (simp add: word_le_nat_alt)
  then show ?thesis by (simp add: encode_utf8_def chr_iso_def)
qed

lemma valid_encoded_byte:
  "is_valid_utf8 (encode_utf8 (chr_iso b) @ r) = is_valid_utf8 r"
proof (cases "b \<le> 127")
  case True
  then have "b < 0x80" by (simp add: word_le_nat_alt word_less_nat_alt)
  then show ?thesis
    using True by (simp add: encode_low is_valid_utf8_def split: option.splits)
next
  case False
  then have "b > 127" by simp
  then show ?thesis
    by (simp add: decode_encoded_high is_valid_utf8_def split: option.splits)
qed

lemma valid_encoded_line:
  "is_valid_utf8 (concat (map (\<lambda>b. encode_utf8 (chr_iso b)) l) @ r) = is_valid_utf8 r"
  by (induction l) (simp_all add: valid_encoded_byte)

lemma valid_NL: "is_valid_utf8 (NL # r) = is_valid_utf8 r"
  by (simp add: is_valid_utf8_def split: option.splits)

lemma valid_encoded_lines:
  "is_valid_utf8 (join_nl (map (\<lambda>l. concat (map (\<lambda>b. encode_utf8 (chr_iso b)) l)) ls))"
proof (induction ls)
  case Nil
  show ?case by (simp add: is_valid_utf8_def)
next
  case (Cons l ls)
  show ?case
  proof (cases ls)
    case Nil
    have "is_valid_utf8 (concat (map (\<lambda>b. encode_utf8 (chr_iso b)) l) @ [])"
      by (simp only: valid_encoded_line) (simp add: is_valid_utf8_def)
    then show ?thesis using Nil by simp
  next
    case (Cons l' ls')
    then show ?thesis
      using Cons.IH by (simp add: valid_encoded_line valid_NL)
  qed
qed

lemma no_warnings_no_code_byte:
  assumes "warnings (scan_lines 1 ls init_state) = []" and "k < length ls" and "j < length (ls ! k)"
  shows "\<not> (ls ! k ! j > 127 \<and> \<not> in_comment (state_before ls k j))"
proof
  assume P: "ls ! k ! j > 127 \<and> \<not> in_comment (state_before ls k j)"
  let ?f = "\<lambda>k j. if ls ! k ! j > 127 \<and> \<not> in_comment (state_before ls k j)
         then [\<lparr>w_line = Suc k, w_col = j + 1, w_byte = hex_byte (ls ! k ! j),
                w_char = chr_iso (ls ! k ! j), w_context = warn_context (ls ! k),
                w_reason = ''non-ASCII in code (not in comment)''\<rparr>]
         else []"
  from assms(1) have "concat (map (\<lambda>k. concat (map (?f k) [0..<length (ls ! k)])) [0..<length ls]) = []"
    by (simp only: warnings_scan_lines)
  then have "concat (map (?f k) [0..<length (ls ! k)]) = []"
    using assms(2) by (simp only: concat_map_Nil_iff) simp
  then have "?f k j = []"
    using assms(3) by (simp only: concat_map_Nil_iff) simp
  with P show False by simp
qed

lemma no_warnings_converted_line:
  assumes "warnings (scan_lines 1 ls init_state) = []" and "k < length ls"
  shows "converted_line ls k = concat (map (\<lambda>b. encode_utf8 (chr_iso b)) (ls ! k))"
proof -
  have "map (\<lambda>c. written_for (state_before ls k c) (ls ! k ! c)) [0..<length (ls ! k)] =
        map (\<lambda>c. encode_utf8 (chr_iso (ls ! k ! c))) [0..<length (ls ! k)]"
    using no_warnings_no_code_byte [OF assms]
    by (intro map_cong) (auto simp add: written_for_def encode_low)
  also have "\<dots> = map (\<lambda>b. encode_utf8 (chr_iso b)) (map (\<lambda>c. ls ! k ! c) [0..<length (ls ! k)])"
    by simp
  also have "map (\<lambda>c. ls ! k ! c) [0..<length (ls ! k)] = ls ! k" by (rule map_nth)
  finally show ?thesis by (simp only: converted_line_def)
qed

lemma no_warnings_valid:
  assumes "warnings (scan_lines 1 ls init_state) = []"
  shows "is_valid_utf8 (join_nl (new_lines (scan_lines 1 ls init_state)))"
proof -
  have "map (converted_line ls) [0..<length ls] =
        map (\<lambda>k. concat (map (\<lambda>b. encode_utf8 (chr_iso b)) (ls ! k))) [0..<length ls]"
    using assms by (intro map_cong) (simp_all add: no_warnings_converted_line)
  also have "\<dots> = map (\<lambda>l. concat (map (\<lambda>b. encode_utf8 (chr_iso b)) l)) (map (\<lambda>k. ls ! k) [0..<length ls])"
    by simp
  also have "map (\<lambda>k. ls ! k) [0..<length ls] = ls" by (rule map_nth)
  finally have "new_lines (scan_lines 1 ls init_state) =
      map (\<lambda>l. concat (map (\<lambda>b. encode_utf8 (chr_iso b)) l)) ls"
    by (simp only: new_lines_scan_lines)
  then show ?thesis by (simp only: valid_encoded_lines)
qed

subsection \<open>The second run classifies the converted content like the first\<close>

lemma same_class_ascii:
  assumes "b \<le> 127" and "same_class s t"
  shows "same_class (byte_step ln line col b s) (byte_step ln' line' col' b t)"
proof -
  from assms(2) have f: "in_block_comment s = in_block_comment t"
      "in_line_comment s = in_line_comment t" "in_string s = in_string t"
      "escape_next s = escape_next t"
    and p: "prev_byte s = prev_byte t \<or> (prev_byte s > 127 \<and> prev_byte t > 127)"
    by (simp_all add: same_class_def cls_of_def)
  from p have m: "(prev_byte s = ord_bar) = (prev_byte t = ord_bar)"
      "(prev_byte s = ord_hash) = (prev_byte t = ord_hash)"
    by auto
  show ?thesis
    using assms(1) f m
    by (simp add: same_class_def cls_of_def byte_step_ascii_flags ascii_flags_def)
qed

lemma same_class_high:
  assumes "x > 127" and "y > 127" and "same_class s t"
  shows "same_class (byte_step ln line col x s) (byte_step ln' line' col' y t)"
  using assms by (simp add: same_class_def cls_of_def flags_byte_step_high)

lemma same_class_extra_high:
  assumes "y > 127" and "prev_byte s > 127" and "same_class s t"
  shows "same_class s (byte_step ln' line' col' y t)"
  using assms by (simp add: same_class_def cls_of_def flags_byte_step_high)

lemma encode_high_bytes:
  assumes "(b :: byte) > 127"
  shows "\<exists>e0 e1. encode_utf8 (chr_iso b) = [e0, e1] \<and> e0 > 127 \<and> e1 > 127"
proof -
  let ?n = "unat b"
  from assms have n: "128 \<le> ?n" "?n < 256" using hi_unat by auto
  let ?b0 = "of_nat (192 + ?n div 64) :: byte"
  let ?b1 = "of_nat (128 + ?n mod 64) :: byte"
  have d: "2 \<le> ?n div 64 \<and> ?n div 64 < 4" using n by (rule div64)
  have "192 + ?n div 64 < 256" using d by linarith
  then have u0: "unat ?b0 = 192 + ?n div 64" by (rule unat_small)
  have "128 + ?n mod 64 < 256" by simp
  then have u1: "unat ?b1 = 128 + ?n mod 64" by (rule unat_small)
  have "?b0 > 127" "?b1 > 127"
    by (simp_all only: word_less_nat_alt u0 u1) simp_all
  then show ?thesis using enc_hi [OF assms] by blast
qed

lemma same_class_written:
  assumes "same_class s t"
  shows "same_class (byte_step ln line col b s)
           (scan_bytes ln' line' col' (written_for s b) t)"
proof (cases "b \<le> 127")
  case True
  then have "written_for s b = [b]" by (auto simp add: written_for_def)
  then show ?thesis using same_class_ascii [OF True assms] by simp
next
  case False
  then have h: "b > 127" by simp
  show ?thesis
  proof (cases "in_comment s")
    case False
    then have "written_for s b = [b]" by (simp add: written_for_def)
    then show ?thesis using same_class_high [OF h h assms] by simp
  next
    case True
    from encode_high_bytes [OF h] obtain e0 e1
      where e: "encode_utf8 (chr_iso b) = [e0, e1]" "e0 > 127" "e1 > 127" by blast
    have w: "written_for s b = [e0, e1]" using h True e(1) by (simp add: written_for_def)
    have 1: "same_class (byte_step ln line col b s) (byte_step ln' line' col' e0 t)"
      using h e(2) assms by (rule same_class_high)
    have 2: "prev_byte (byte_step ln line col b s) > 127" using h by simp
    have "same_class (byte_step ln line col b s)
        (byte_step ln' line' (Suc col') e1 (byte_step ln' line' col' e0 t))"
      using e(3) 2 1 by (rule same_class_extra_high)
    then show ?thesis by (simp add: w)
  qed
qed

lemma same_class_scan_bytes:
  assumes "new_line s = []" and "same_class s t"
  shows "same_class (scan_bytes ln line col bs s)
           (scan_bytes ln' line' col' (new_line (scan_bytes ln line col bs s)) t)"
proof (induction bs rule: rev_induct)
  case Nil
  show ?case using assms by simp
next
  case (snoc x xs)
  let ?S = "scan_bytes ln line col xs s"
  have lhs: "scan_bytes ln line col (xs @ [x]) s = byte_step ln line (col + length xs) x ?S"
    by (rule scan_bytes_snoc)
  have nl: "new_line (byte_step ln line (col + length xs) x ?S) =
      new_line ?S @ written_for ?S x"
    by (rule new_line_byte_step)
  have rhs: "scan_bytes ln' line' col' (new_line ?S @ written_for ?S x) t =
      scan_bytes ln' line' (col' + length (new_line ?S)) (written_for ?S x)
        (scan_bytes ln' line' col' (new_line ?S) t)"
    by (rule scan_bytes_append)
  have "same_class (byte_step ln line (col + length xs) x ?S)
          (scan_bytes ln' line' (col' + length (new_line ?S)) (written_for ?S x)
             (scan_bytes ln' line' col' (new_line ?S) t))"
    using snoc by (rule same_class_written)
  then show ?case
    by (simp only: lhs nl rhs)
qed

lemma same_class_line_reset:
  "in_block_comment s = in_block_comment t \<Longrightarrow> same_class (line_reset s) (line_reset t)"
  by (simp add: same_class_def cls_of_def)

lemma same_class_block: "same_class s t \<Longrightarrow> in_block_comment s = in_block_comment t"
  by (simp add: same_class_def cls_of_def)

lemma same_class_comment: "same_class s t \<Longrightarrow> in_comment s = in_comment t"
  by (simp add: same_class_def cls_of_def in_comment_def)

lemma block_after_converted_lines:
  "in_block_comment (scan_lines 1 (new_lines (scan_lines 1 ls init_state)) init_state) =
     in_block_comment (scan_lines 1 ls init_state)"
proof (induction ls rule: rev_induct)
  case Nil
  show ?case by simp
next
  case (snoc x xs)
  let ?U = "scan_lines 1 xs init_state"
  let ?N = "new_lines ?U"
  let ?U' = "scan_lines 1 ?N init_state"
  let ?T = "scan_bytes (1 + length xs) x 0 x (line_reset ?U)"
  have st: "scan_lines 1 (xs @ [x]) init_state = line_step (1 + length xs) x ?U"
    by (simp only: scan_lines_snoc)
  have nl: "new_lines (scan_lines 1 (xs @ [x]) init_state) = ?N @ [new_line ?T]"
    by (simp only: st) (simp add: line_step_def Let_def)
  have r: "same_class (line_reset ?U) (line_reset ?U')"
    using snoc by (intro same_class_line_reset) simp
  have "same_class ?T
      (scan_bytes (1 + length ?N) (new_line ?T) 0 (new_line ?T) (line_reset ?U'))"
    using r by (intro same_class_scan_bytes) simp_all
  then have eq: "in_block_comment ?T =
      in_block_comment (scan_bytes (1 + length ?N) (new_line ?T) 0 (new_line ?T) (line_reset ?U'))"
    by (rule same_class_block)
  have L: "in_block_comment (scan_lines 1 (xs @ [x]) init_state) = in_block_comment ?T"
    by (simp only: st in_block_line_step)
  have R: "scan_lines 1 (?N @ [new_line ?T]) init_state =
      line_step (1 + length ?N) (new_line ?T) ?U'"
    by (rule scan_lines_snoc)
  have R2: "in_block_comment
      (scan_lines 1 (new_lines (scan_lines 1 (xs @ [x]) init_state)) init_state) =
      in_block_comment (scan_bytes (1 + length ?N) (new_line ?T) 0 (new_line ?T) (line_reset ?U'))"
    by (simp only: nl R in_block_line_step)
  show ?case
    by (simp only: L R2 eq)
qed

lemma state_before_take:
  "i < k \<Longrightarrow> state_before (take k ls) i c = state_before ls i c"
  by (simp add: state_before_def min_def)

lemma converted_line_take:
  "i < k \<Longrightarrow> converted_line (take k ls) i = converted_line ls i"
  by (simp add: converted_line_def state_before_take)

lemma new_lines_take:
  assumes "k \<le> length ls"
  shows "new_lines (scan_lines 1 (take k ls) init_state) =
         take k (new_lines (scan_lines 1 ls init_state))"
proof -
  have "map (converted_line (take k ls)) [0..<k] = map (converted_line ls) [0..<k]"
    by (rule map_cong) (simp_all add: converted_line_take)
  moreover have "take k (map (converted_line ls) [0..<length ls]) = map (converted_line ls) [0..<k]"
    using assms by (simp add: take_map min_def)
  moreover have "length (take k ls) = k" using assms by simp
  ultimately show ?thesis
    by (simp only: new_lines_scan_lines)
qed

lemma new_line_state_before:
  assumes "c \<le> length (ls ! k)"
  shows "new_line (state_before ls k c) =
         concat (map (\<lambda>j. written_for (state_before ls k j) (ls ! k ! j)) [0..<c])"
proof -
  let ?l = "ls ! k"
  let ?s = "line_reset (scan_lines 1 (take k ls) init_state)"
  have len: "length (take c ?l) = c" using assms by simp
  have "new_line (state_before ls k c) =
        new_line ?s @
        concat (map (\<lambda>j. written_for (scan_bytes (Suc k) ?l 0 (take j (take c ?l)) ?s)
                            (take c ?l ! j)) [0..<length (take c ?l)])"
    unfolding state_before_def by (rule new_line_scan_bytes)
  also have "map (\<lambda>j. written_for (scan_bytes (Suc k) ?l 0 (take j (take c ?l)) ?s)
                            (take c ?l ! j)) [0..<length (take c ?l)] =
             map (\<lambda>j. written_for (state_before ls k j) (?l ! j)) [0..<c]"
    unfolding len by (rule map_cong) (simp_all add: state_before_def min_def)
  finally show ?thesis by simp
qed

lemma take_length_append: "take (length xs) (xs @ ys) = xs"
  by simp

lemma take_converted_line:
  assumes "c < length (ls ! k)"
  shows "take (c + converted_before ls k c) (converted_line ls k) = new_line (state_before ls k c)"
proof -
  let ?f = "\<lambda>j. written_for (state_before ls k j) (ls ! k ! j)"
  let ?X = "concat (map ?f [0..<c])"
  let ?Y = "?f c @ concat (map ?f [Suc c..<length (ls ! k)])"
  have cl: "converted_line ls k = ?X @ ?Y"
    unfolding converted_line_def using assms by (rule concat_upt_split)
  have len: "c + converted_before ls k c = length ?X"
    by (rule length_converted_prefix [symmetric])
  have "take (length ?X) (?X @ ?Y) = ?X" by (rule take_length_append)
  then have "take (c + converted_before ls k c) (converted_line ls k) = ?X"
    by (simp only: cl len)
  then show ?thesis
    using assms by (simp only: new_line_state_before less_imp_le)
qed

lemma same_class_converted:
  assumes "k < length ls" and "c < length (ls ! k)"
  shows "same_class (state_before ls k c)
           (state_before (new_lines (scan_lines 1 ls init_state)) k
              (c + converted_before ls k c))"
proof -
  let ?ls' = "new_lines (scan_lines 1 ls init_state)"
  let ?U = "scan_lines 1 (take k ls) init_state"
  let ?U' = "scan_lines 1 (take k ?ls') init_state"
  let ?j = "c + converted_before ls k c"
  have line: "?ls' ! k = converted_line ls k"
    using assms(1) by (simp only: new_lines_scan_lines) simp
  have tk: "take k ?ls' = new_lines ?U"
    using assms(1) by (simp only: new_lines_take less_imp_le)
  have "in_block_comment ?U = in_block_comment ?U'"
    by (simp only: tk block_after_converted_lines)
  then have r: "same_class (line_reset ?U) (line_reset ?U')"
    by (rule same_class_line_reset)
  have "same_class (scan_bytes (Suc k) (ls ! k) 0 (take c (ls ! k)) (line_reset ?U))
      (scan_bytes (Suc k) (?ls' ! k) 0
         (new_line (scan_bytes (Suc k) (ls ! k) 0 (take c (ls ! k)) (line_reset ?U)))
         (line_reset ?U'))"
    using r by (intro same_class_scan_bytes) simp_all
  then have "same_class (state_before ls k c)
      (scan_bytes (Suc k) (?ls' ! k) 0 (new_line (state_before ls k c)) (line_reset ?U'))"
    by (simp only: state_before_def)
  moreover have "take ?j (?ls' ! k) = new_line (state_before ls k c)"
    using assms(2) by (simp only: line take_converted_line)
  ultimately show ?thesis
    by (simp only: state_before_def [of ?ls' k ?j])
qed

lemma changes_exist:
  assumes "changes (scan_lines 1 ls init_state) \<noteq> []"
  shows "\<exists>k c. k < length ls \<and> c < length (ls ! k) \<and> ls ! k ! c > 127
            \<and> in_comment (state_before ls k c)"
proof (rule ccontr)
  assume n: "\<not> ?thesis"
  let ?f = "\<lambda>k j. if ls ! k ! j > 127 \<and> in_comment (state_before ls k j)
         then [\<lparr>c_line = Suc k, c_col = j + 1, c_byte = hex_byte (ls ! k ! j),
                c_char = chr_iso (ls ! k ! j)\<rparr>]
         else []"
  have z: "?f k j = []" if "k < length ls" "j < length (ls ! k)" for k j
  proof -
    have "\<not> (ls ! k ! j > 127 \<and> in_comment (state_before ls k j))"
      using n that by blast
    then show ?thesis by (simp only: if_False)
  qed
  have "concat (map (?f k) [0..<length (ls ! k)]) = []" if "k < length ls" for k
    unfolding concat_map_Nil_iff using z [OF that] by simp
  then have "concat (map (\<lambda>k. concat (map (?f k) [0..<length (ls ! k)])) [0..<length ls]) = []"
    unfolding concat_map_Nil_iff by simp
  then have "changes (scan_lines 1 ls init_state) = []"
    by (simp only: changes_scan_lines)
  with assms show False by simp
qed

lemma second_scan_changes:
  assumes "changes (scan_lines 1 ls init_state) \<noteq> []"
  shows "changes (scan_lines 1 (new_lines (scan_lines 1 ls init_state)) init_state) \<noteq> []"
proof
  let ?ls' = "new_lines (scan_lines 1 ls init_state)"
  assume e: "changes (scan_lines 1 ?ls' init_state) = []"
  from changes_exist [OF assms] obtain k c
    where kc: "k < length ls" "c < length (ls ! k)" "ls ! k ! c > 127"
      "in_comment (state_before ls k c)" by blast
  let ?j = "c + converted_before ls k c"
  have line: "?ls' ! k = converted_line ls k" and len: "k < length ?ls'"
    using kc(1) by (simp_all only: new_lines_scan_lines) simp_all
  from encode_high_bytes [OF kc(3)] obtain e0 e1
    where enc: "encode_utf8 (chr_iso (ls ! k ! c)) = [e0, e1]" "e0 > 127" "e1 > 127" by blast
  have t: "take 2 (drop ?j (?ls' ! k)) = [e0, e1]"
    using converted_line_comment_byte [OF kc(2)] kc(3,4) by (simp only: line enc(1))
  then have j: "?j < length (?ls' ! k)"
    by (cases "?j < length (?ls' ! k)") simp_all
  then have "drop ?j (?ls' ! k) = ?ls' ! k ! ?j # drop (Suc ?j) (?ls' ! k)"
    by (rule Cons_nth_drop_Suc [symmetric])
  then have "take 2 (drop ?j (?ls' ! k)) = take 2 (?ls' ! k ! ?j # drop (Suc ?j) (?ls' ! k))"
    by (rule arg_cong)
  also have "\<dots> = ?ls' ! k ! ?j # take 1 (drop (Suc ?j) (?ls' ! k))"
    by (simp add: numeral_2_eq_2)
  finally have "[e0, e1] = ?ls' ! k ! ?j # take 1 (drop (Suc ?j) (?ls' ! k))"
    by (simp only: t)
  then have "?ls' ! k ! ?j = e0" by (simp only: list.inject)
  then have hi: "?ls' ! k ! ?j > 127" using enc(2) by (simp only:)
  have "in_comment (state_before ?ls' k ?j)"
    using same_class_comment [OF same_class_converted [OF kc(1,2)]] kc(4) by simp
  with hi no_changes_no_comment_byte [OF e len j] show False by simp
qed

text \<open>
  C1, amended. A second run of \<open>process_file\<close> on the content left by a first run (with
  \<open>dry_run\<close> off) reports no change exactly when the first run made no change or the
  content it left is valid UTF-8. This covers every file the first run skipped, every
  file in which it found bytes above 127 only outside comments (warnings, no change, the
  content untouched) and every file it converted without a warning (the content is then
  valid UTF-8). In all these cases the second run leaves the content as it is.
\<close>

theorem second_run_changes:
  "(r_changes (fst (process_file (snd (process_file data False)) dry_run)) = []
      \<longleftrightarrow> r_changes (fst (process_file data False)) = []
          \<or> is_valid_utf8 (snd (process_file data False)))
   \<and> (r_warnings (fst (process_file data False)) = []
        \<longrightarrow> r_changes (fst (process_file data False)) = []
            \<or> is_valid_utf8 (snd (process_file data False)))
   \<and> (r_changes (fst (process_file data False)) = []
          \<or> is_valid_utf8 (snd (process_file data False))
        \<longrightarrow> snd (process_file (snd (process_file data False)) dry_run) =
            snd (process_file data False))"
proof -
  let ?out = "snd (process_file data False)"
  let ?S = "scan_lines 1 (split_nl data) init_state"
  have unchanged: "?out = data" if "r_changes (fst (process_file data False)) = []"
    using that by (auto simp add: process_file_def Let_def)
  have same: "r_changes (fst (process_file data dry_run)) = r_changes (fst (process_file data False))"
    by (simp add: process_file_def Let_def)
  have a1: "r_changes (fst (process_file ?out dry_run)) = []"
    if "r_changes (fst (process_file data False)) = []"
    using that unchanged [OF that] same by simp
  have a2: "r_changes (fst (process_file ?out dry_run)) = []" if "is_valid_utf8 ?out"
    using that by (simp add: process_file_def)
  have a3: "r_changes (fst (process_file ?out dry_run)) \<noteq> []"
    if c: "r_changes (fst (process_file data False)) \<noteq> []" and nv: "\<not> is_valid_utf8 ?out"
  proof -
    from c have h: "has_non_ascii data" and v: "\<not> is_valid_utf8 data"
      by (auto simp add: process_file_def split: if_splits)
    from c h v have cs: "changes ?S \<noteq> []"
      by (simp add: process_file_def Let_def)
    then have out: "?out = join_nl (new_lines ?S)"
      using h v by (simp add: process_file_def Let_def)
    have sp: "split_nl ?out = new_lines ?S"
      by (simp only: out new_lines_scan_lines converted_lines_split)
    have ho: "has_non_ascii ?out" using nv valid_ascii by blast
    have "r_changes (fst (process_file ?out dry_run)) =
          changes (scan_lines 1 (split_nl ?out) init_state)"
      using ho nv by (simp add: process_file_def Let_def)
    then show ?thesis
      using second_scan_changes [OF cs] by (simp only: sp) simp
  qed
  have b: "r_changes (fst (process_file data False)) = [] \<or> is_valid_utf8 ?out"
    if w: "r_warnings (fst (process_file data False)) = []"
  proof (cases "\<not> has_non_ascii data \<or> is_valid_utf8 data")
    case True
    then show ?thesis by (auto simp add: process_file_def)
  next
    case False
    then have h: "has_non_ascii data" and nv: "\<not> is_valid_utf8 data" by simp_all
    from w h nv have ws: "warnings ?S = []"
      by (simp add: process_file_def Let_def)
    have "changes ?S \<noteq> []"
      using count_records [of data] h ws by (auto simp add: has_non_ascii_filter)
    then have "?out = join_nl (new_lines ?S)"
      using h nv by (simp add: process_file_def Let_def)
    then show ?thesis using no_warnings_valid [OF ws] by simp
  qed
  have d: "snd (process_file ?out dry_run) = ?out"
    if "r_changes (fst (process_file data False)) = [] \<or> is_valid_utf8 ?out"
  proof -
    from that a1 a2 have "r_changes (fst (process_file ?out dry_run)) = []" by blast
    then show ?thesis by (auto simp add: process_file_def Let_def split: if_splits)
  qed
  from a1 a2 a3 b d show ?thesis by blast
qed

theorem second_run_changes_witness:
  "r_changes (fst (process_file [0x22, 0xE9, 0x22] False)) = []
   \<and> r_warnings (fst (process_file [0x22, 0xE9, 0x22] False)) \<noteq> []
   \<and> r_changes (fst (process_file (snd (process_file [0x22, 0xE9, 0x22] False)) False)) = []
   \<and> r_warnings (fst (process_file [0x3B, 0x20, 0xE9, 0x0A, 0x61] False)) = []
   \<and> snd (process_file [0x3B, 0x20, 0xE9, 0x0A, 0x61] False) = [0x3B, 0x20, 0xC3, 0xA9, 0x0A, 0x61]
   \<and> is_valid_utf8 (snd (process_file [0x3B, 0x20, 0xE9, 0x0A, 0x61] False))
   \<and> r_changes (fst (process_file
         (snd (process_file [0x3B, 0x20, 0xE9, 0x0A, 0x61] False)) False)) = []"
proof -
  have p1: "map w_col (r_warnings (fst (process_file [0x22, 0xE9, 0x22] False))) = [2]"
    "r_changes (fst (process_file [0x22, 0xE9, 0x22] False)) = []"
    by (simp_all add: process_file_def has_non_ascii_def is_valid_utf8_def in_range_def
          second_lo_def second_hi_def line_step_def line_reset_def init_state_def
          byte_step_def ascii_flags_def Let_def)
  then have w1: "r_warnings (fst (process_file [0x22, 0xE9, 0x22] False)) \<noteq> []"
    by auto
  have p2: "process_file [0x3B, 0x20, 0xE9, 0x0A, 0x61] False =
      (\<lparr>r_changes = [\<lparr>c_line = 1, c_col = 3, c_byte = ''0xe9'', c_char = 233\<rparr>],
        r_warnings = [], r_modified = True, r_skipped = None\<rparr>,
       [0x3B, 0x20, 0xC3, 0xA9, 0x0A, 0x61])"
    by (simp add: process_file_def has_non_ascii_def is_valid_utf8_def in_range_def
          second_lo_def second_hi_def line_step_def line_reset_def init_state_def
          byte_step_def ascii_flags_def Let_def encode_utf8_def chr_iso_def hex_byte_def
          hex_digit_def)
  have w2: "r_warnings (fst (process_file [0x3B, 0x20, 0xE9, 0x0A, 0x61] False)) = []"
    by (simp add: p2)
  have c1: "r_changes (fst (process_file (snd (process_file [0x22, 0xE9, 0x22] False)) False)) = []"
    using second_run_changes [of "[0x22, 0xE9, 0x22]" False] p1(2) by blast
  have v2: "is_valid_utf8 (snd (process_file [0x3B, 0x20, 0xE9, 0x0A, 0x61] False))"
    using second_run_changes [of "[0x3B, 0x20, 0xE9, 0x0A, 0x61]" False] w2
    by (simp add: p2)
  have c2: "r_changes (fst (process_file
         (snd (process_file [0x3B, 0x20, 0xE9, 0x0A, 0x61] False)) False)) = []"
    using second_run_changes [of "[0x3B, 0x20, 0xE9, 0x0A, 0x61]" False] v2 by blast
  from p1(2) w1 c1 w2 v2 c2 show ?thesis by (simp add: p2)
qed

end
